theory Spec2Isabelle
  imports Main
begin

section \<open>Lines, actions, errors\<close>

text \<open>
  The enumeration \<open>Line\<close> and the four dataclasses derived from \<open>Action\<close> of
  \<open>metroroute.py\<close>.  The post-processing pass of \<open>get_route_from_path\<close> stores an
  attribute \<open>to_line\<close> on \<open>GoTo\<close> objects that the dataclass does not declare; it is the
  fifth component of \<open>GoTo\<close> here, \<open>None\<close> while the attribute is absent.
\<close>

datatype Line = CTL | CSL | APL | HTL | RLR

datatype action =
    Transfer string Line Line
  | GoTo string string Line "string list" "Line option"
  | BeginAt string
  | ArriveAt string

datatype error = IndexError | KeyError | ValueError | NameError

fun is_GoTo :: "action \<Rightarrow> bool" where
  "is_GoTo (GoTo t f l sts tol) = True"
| "is_GoTo a = False"

fun is_Transfer :: "action \<Rightarrow> bool" where
  "is_Transfer (Transfer a f t) = True"
| "is_Transfer a = False"

section \<open>Python list indexing and the line table\<close>

text \<open>\<open>xs[i]\<close>: a negative index counts from the end, anything out of range raises.\<close>

definition py_get :: "'a list \<Rightarrow> int \<Rightarrow> error + 'a" where
  "py_get xs i =
     (if 0 \<le> i \<and> i < int (length xs) then Inr (xs ! nat i)
      else if i < 0 \<and> - int (length xs) \<le> i then Inr (xs ! nat (int (length xs) + i))
      else Inl IndexError)"

definition STATION_LINES :: "string \<rightharpoonup> Line list" where
  "STATION_LINES = map_of
    [(''akemane'', [CTL, APL]),
     (''hasiph'', [CTL, CSL, HTL]),
     (''korihasiph'', [CTL, CSL]),
     (''southbridge'', [CTL]),
     (''parliament'', [CTL, APL]),
     (''kandami'', [CTL]),
     (''kutsimati'', [CTL]),
     (''kemigitech'', [CTL, HTL]),
     (''azadimoph'', [CTL]),
     (''venice'', [CSL, APL]),
     (''waisharkil'', [CSL]),
     (''dern'', [CSL, APL]),
     (''detech'', [CSL]),
     (''amiri'', [CSL, RLR]),
     (''snowbing'', [CSL]),
     (''airport'', [APL]),
     (''quramitu'', [APL]),
     (''hayalese'', [APL]),
     (''university'', [APL]),
     (''distaye'', [APL]),
     (''rasir piss'', [APL, HTL]),
     (''marcosia'', [APL]),
     (''sanzaleka'', [APL]),
     (''damatsalan'', [HTL]),
     (''kanahide'', [HTL]),
     (''yelojaber'', [HTL]),
     (''amirkhan'', [RLR]),
     (''amiri south'', [RLR])]"

text \<open>\<open>STATION_LINES[s]\<close>: a missing key raises \<open>KeyError\<close>.\<close>

definition station_lines :: "string \<Rightarrow> error + Line list" where
  "station_lines s = (case STATION_LINES s of None \<Rightarrow> Inl KeyError | Some ls \<Rightarrow> Inr ls)"

definition has_common :: "Line list \<Rightarrow> Line list \<Rightarrow> bool" where
  "has_common list1 list2 = (set list1 \<inter> set list2 \<noteq> {})"

text \<open>
  \<open>common_line_between_stations\<close> ends with \<open>list(val)\<close> on a set of enum members.  The
  order in which the interpreter enumerates a set is not fixed by the source, so the
  conversion is the parameter \<open>lst\<close> of everything that calls it; \<open>set_lister\<close> says that
  \<open>lst\<close> enumerates exactly the members of its argument, and \<open>decl_order\<close> is one such
  enumeration (members in declaration order).
\<close>

type_synonym lister = "Line set \<Rightarrow> Line list"

definition set_lister :: "lister \<Rightarrow> bool" where
  "set_lister lst = (\<forall>S. set (lst S) = S)"

definition decl_order :: lister where
  "decl_order S = filter (\<lambda>l. l \<in> S) [CTL, CSL, APL, HTL, RLR]"

fun line_sets :: "string list \<Rightarrow> error + Line set list" where
  "line_sets [] = Inr []"
| "line_sets (station # rest) =
     (case station_lines station of
        Inl e \<Rightarrow> Inl e
      | Inr ls \<Rightarrow> (case line_sets rest of Inl e \<Rightarrow> Inl e | Inr lines \<Rightarrow> Inr (set ls # lines)))"

definition common_line_between_stations :: "lister \<Rightarrow> string list \<Rightarrow> error + Line list" where
  "common_line_between_stations lst stations =
     (if length stations = 0 then Inl ValueError
      else case line_sets stations of
             Inl e \<Rightarrow> Inl e
           | Inr lines \<Rightarrow> Inr (lst (foldl (\<inter>) (hd lines) (tl lines))))"

section \<open>The scan of \<open>get_route_from_path\<close>\<close>

text \<open>
  The local variables of the function.  \<open>curline\<close> is unbound until the first iteration
  assigns it (\<open>None\<close>).
\<close>

record state =
  s_route :: "action list"
  s_begin :: string
  s_buf :: "string list"
  s_i :: int
  s_curline :: "Line option"

text \<open>
  The closure \<open>cond\<close>, reading the current \<open>i\<close> and \<open>curline\<close>; subscripts are evaluated
  left to right, \<open>and\<close> skips its right operand when the left is false.
\<close>

definition cond :: "string list \<Rightarrow> Line option \<Rightarrow> int \<Rightarrow> error + bool" where
  "cond path curline i =
     (case py_get path i of Inl e \<Rightarrow> Inl e | Inr a \<Rightarrow>
      case station_lines a of Inl e \<Rightarrow> Inl e | Inr la \<Rightarrow>
      case py_get path (i + 1) of Inl e \<Rightarrow> Inl e | Inr b \<Rightarrow>
      case station_lines b of Inl e \<Rightarrow> Inl e | Inr lb \<Rightarrow>
      if \<not> has_common la lb then Inr False
      else case curline of None \<Rightarrow> Inl NameError
           | Some c \<Rightarrow> Inr (c \<in> set la \<union> set lb))"

text \<open>
  \<open>while cond(): buf.append(path[i]); i += 1\<close>.  The result is how the loop ended
  (\<open>None\<close>: the condition was false; \<open>Some e\<close>: \<open>e\<close> was raised) with \<open>i\<close> and \<open>buf\<close> as they
  are then.
\<close>

function inner_while ::
  "string list \<Rightarrow> Line option \<Rightarrow> int \<Rightarrow> string list \<Rightarrow> error option \<times> int \<times> string list" where
  "inner_while path curline i buf =
     (case cond path curline i of
        Inl e \<Rightarrow> (Some e, i, buf)
      | Inr c \<Rightarrow>
          if c then (case py_get path i of
                       Inl e \<Rightarrow> (Some e, i, buf)
                     | Inr p \<Rightarrow> inner_while path curline (i + 1) (buf @ [p]))
          else (None, i, buf))"
  by pat_completeness auto
termination
  by (relation "measure (\<lambda>(path, curline, i, buf). nat (int (length path) - i))")
     (auto simp: cond_def py_get_def split: sum.splits if_splits)

declare inner_while.simps [simp del]

text \<open>The block under \<open>if i == 0\<close>.\<close>

definition begin_block :: "string list \<Rightarrow> state \<Rightarrow> error + state" where
  "begin_block path s =
     (if s_i s = 0 then
        (case py_get path (s_i s) of Inl e \<Rightarrow> Inl e | Inr p \<Rightarrow>
         case station_lines p of Inl e \<Rightarrow> Inl e | Inr ls \<Rightarrow>
         case py_get ls 0 of Inl e \<Rightarrow> Inl e | Inr c \<Rightarrow>
           Inr (s\<lparr>s_route := s_route s @ [BeginAt p], s_begin := p, s_curline := Some c\<rparr>))
      else Inr s)"

text \<open>
  The handler of \<open>except IndexError\<close>; the flag of the result says whether \<open>break\<close> was
  reached.
\<close>

definition handler :: "lister \<Rightarrow> string list \<Rightarrow> state \<Rightarrow> error + bool \<times> state" where
  "handler lst path s =
     (if s_i s = int (length path) - 1 then
        (case py_get (s_route s) (int (length (s_route s)) - 1) of Inl e \<Rightarrow> Inl e
         | Inr lastact \<Rightarrow>
           if \<not> is_GoTo lastact then
             (case common_line_between_stations lst (s_buf s) of Inl e \<Rightarrow> Inl e
              | Inr common_lines \<Rightarrow>
              case py_get common_lines 0 of Inl e \<Rightarrow> Inl e | Inr common_line \<Rightarrow>
              case py_get path (s_i s) of Inl e \<Rightarrow> Inl e | Inr p \<Rightarrow>
                let buf' = s_buf s @ [p];
                    route' = (case lastact of
                                Transfer a f t \<Rightarrow>
                                  (s_route s)[length (s_route s) - 1 := Transfer a f common_line]
                              | _ \<Rightarrow> s_route s)
                in Inr (True, s\<lparr>s_buf := buf',
                      s_route := route' @ [GoTo p (s_begin s) common_line buf' None, ArriveAt p]\<rparr>))
           else Inr (False, s))
      else Inr (False, s))"

text \<open>The block under \<open>if len(STATION_LINES[path[i]]) > 1\<close>.\<close>

definition transfer_block :: "string list \<Rightarrow> state \<Rightarrow> error + state" where
  "transfer_block path s =
     (case py_get path (s_i s) of Inl e \<Rightarrow> Inl e | Inr p \<Rightarrow>
      case station_lines p of Inl e \<Rightarrow> Inl e | Inr ls \<Rightarrow>
      if length ls > 1 then
        (case py_get ls 0 of Inl e \<Rightarrow> Inl e | Inr c \<Rightarrow>
         case py_get path (s_i s + 1) of Inl e \<Rightarrow> Inl e | Inr nextstation \<Rightarrow>
         case station_lines nextstation of Inl e \<Rightarrow> Inl e | Inr nls \<Rightarrow>
         case py_get nls 0 of Inl e \<Rightarrow> Inl e | Inr nc \<Rightarrow>
           Inr (s\<lparr>s_curline := Some c,
                  s_route := s_route s @ [GoTo p (s_begin s) c (s_buf s) None, Transfer p nc c],
                  s_buf := [p, nextstation],
                  s_begin := p,
                  s_i := s_i s + 1\<rparr>))
      else Inr s)"

text \<open>One iteration of the outer \<open>while\<close>; the flag says whether it ended in \<open>break\<close>.\<close>

definition loop_body :: "lister \<Rightarrow> string list \<Rightarrow> state \<Rightarrow> error + bool \<times> state" where
  "loop_body lst path s =
     (case begin_block path s of Inl e \<Rightarrow> Inl e | Inr s1 \<Rightarrow>
      case inner_while path (s_curline s1) (s_i s1) (s_buf s1) of
        (None, i', buf') \<Rightarrow>
          (case transfer_block path (s1\<lparr>s_i := i' - 1, s_buf := buf'\<rparr>) of
             Inl e \<Rightarrow> Inl e | Inr s3 \<Rightarrow> Inr (False, s3))
      | (Some e, i', buf') \<Rightarrow>
          if e = IndexError then
            (case handler lst path (s1\<lparr>s_i := i', s_buf := buf'\<rparr>) of
               Inl e' \<Rightarrow> Inl e'
             | Inr (brk, s2) \<Rightarrow>
                 if brk then Inr (True, s2)
                 else (case transfer_block path s2 of
                         Inl e' \<Rightarrow> Inl e' | Inr s3 \<Rightarrow> Inr (False, s3)))
          else Inl e)"

text \<open>
  The outer \<open>while i < len(path)\<close>.  Nothing bounds the number of its iterations, so the
  result is an option: \<open>None\<close> when the loop never ends.
\<close>

partial_function (option) route_loop ::
  "lister \<Rightarrow> string list \<Rightarrow> state \<Rightarrow> (error + action list) option" where
  "route_loop lst path s =
     (if s_i s < int (length path) then
        (case loop_body lst path s of
           Inl e \<Rightarrow> Some (Inl e)
         | Inr (brk, s') \<Rightarrow> if brk then Some (Inr (s_route s')) else route_loop lst path s')
      else Some (Inr (s_route s)))"

declare route_loop.simps [code]

section \<open>The pass over the compiled route\<close>

text \<open>The body of \<open>for i, actn in enumerate(route)\<close> at index \<open>k\<close>.\<close>

definition post_step :: "lister \<Rightarrow> nat \<Rightarrow> action list \<Rightarrow> error + action list" where
  "post_step lst k route =
     (case route ! k of
        GoTo t f l sts tol \<Rightarrow>
          (case common_line_between_stations lst sts of Inl e \<Rightarrow> Inl e | Inr cl \<Rightarrow>
           case py_get cl 0 of Inl e \<Rightarrow> Inl e | Inr line \<Rightarrow>
           case py_get route (int k + 1) of Inl e \<Rightarrow> Inl e | Inr nxt \<Rightarrow>
             (case nxt of
                Transfer a fl tol' \<Rightarrow> Inr (route[k := GoTo t f line sts (Some tol')])
              | _ \<Rightarrow> Inr (route[k := GoTo t f line sts tol])))
      | Transfer a fl tol \<Rightarrow>
          (case py_get route (int k - 1) of
             Inl e \<Rightarrow> Inr route
           | Inr prev \<Rightarrow>
               (case prev of
                  GoTo t f l sts tol' \<Rightarrow> Inr (route[k := Transfer a l tol])
                | _ \<Rightarrow> Inr route))
      | _ \<Rightarrow> Inr route)"

fun post_steps :: "lister \<Rightarrow> nat list \<Rightarrow> action list \<Rightarrow> error + action list" where
  "post_steps lst [] route = Inr route"
| "post_steps lst (k # ks) route =
     (case post_step lst k route of Inl e \<Rightarrow> Inl e | Inr route' \<Rightarrow> post_steps lst ks route')"

definition post_process :: "lister \<Rightarrow> action list \<Rightarrow> error + action list" where
  "post_process lst route = post_steps lst [0 ..< length route] route"

definition init_state :: state where
  "init_state = \<lparr>s_route = [], s_begin = [], s_buf = [], s_i = 0, s_curline = None\<rparr>"

definition get_route_from_path :: "lister \<Rightarrow> string list \<Rightarrow> (error + action list) option" where
  "get_route_from_path lst path =
     (case route_loop lst path init_state of
        None \<Rightarrow> None
      | Some (Inl e) \<Rightarrow> Some (Inl e)
      | Some (Inr route) \<Rightarrow> Some (post_process lst route))"

section \<open>The network: \<open>MetroNetwork\<close>\<close>

text \<open>
  \<open>self.graph\<close>, a dictionary from a station to the list of its neighbours, as the list of
  its items in insertion order.
\<close>

type_synonym graph = "(string \<times> string list) list"

definition add_station :: "graph \<Rightarrow> string \<Rightarrow> graph" where
  "add_station g station = (if map_of g station = None then g @ [(station, [])] else g)"

text \<open>\<open>self.graph[k].append(v)\<close>, for a key that \<open>add_station\<close> has just made sure of.\<close>

definition append_neighbor :: "graph \<Rightarrow> string \<Rightarrow> string \<Rightarrow> graph" where
  "append_neighbor g k v = map (\<lambda>(k', vs). if k' = k then (k', vs @ [v]) else (k', vs)) g"

definition add_connection :: "graph \<Rightarrow> string \<Rightarrow> string \<Rightarrow> graph" where
  "add_connection g station1 station2 =
     append_neighbor
       (append_neighbor (add_station (add_station g station1) station2) station1 station2)
       station2 station1"

fun add_connections :: "graph \<Rightarrow> string list \<Rightarrow> graph" where
  "add_connections g (a # b # conns) = add_connections (add_connection g a b) (b # conns)"
| "add_connections g conns = g"

text \<open>
  The \<open>while queue\<close> loop of \<open>shortest_path\<close>: \<open>queue\<close> is the deque, its head on the left.
  A dequeued station that is no key of the graph raises \<open>KeyError\<close>.
\<close>

function shortest_path_loop ::
  "graph \<Rightarrow> string \<Rightarrow> string set \<Rightarrow> (string \<times> int) list \<Rightarrow> error + int option" where
  "shortest_path_loop g end visited [] = Inr None"
| "shortest_path_loop g end visited ((current_station, distance) # queue) =
     (if current_station = end then Inr (Some distance)
      else if current_station \<notin> visited then
        (case map_of g current_station of
           None \<Rightarrow> Inl KeyError
         | Some neighbors \<Rightarrow>
             shortest_path_loop g end (insert current_station visited)
               (queue @ map (\<lambda>neighbor. (neighbor, distance + 1))
                          (filter (\<lambda>neighbor. neighbor \<notin> insert current_station visited)
                             neighbors)))
      else shortest_path_loop g end visited queue)"
  by pat_completeness auto
termination
proof (relation "measures [\<lambda>(g, e, visited, queue). card (fst ` set g - visited),
                          \<lambda>(g, e, visited, queue). length queue]", goal_cases)
  case 1
  show ?case by simp
next
  case (2 g e visited current_station distance queue neighbors)
  from 2(3) have "current_station \<in> fst ` set g"
    by (metis map_of_eq_None_iff option.distinct(1))
  with 2(2) have "fst ` set g - insert current_station visited \<subset> fst ` set g - visited"
    by blast
  then have "card (fst ` set g - insert current_station visited) < card (fst ` set g - visited)"
    by (intro psubset_card_mono) auto
  then show ?case by simp
next
  case 3
  then show ?case by simp
qed

definition shortest_path :: "graph \<Rightarrow> string \<Rightarrow> string \<Rightarrow> error + int option" where
  "shortest_path g start end =
     (if map_of g start = None \<or> map_of g end = None then Inr None
      else shortest_path_loop g end {} [(start, 0)])"

text \<open>The same loop in \<open>get_path\<close>, each queue entry carrying the path walked so far.\<close>

function get_path_loop ::
  "graph \<Rightarrow> string \<Rightarrow> string set \<Rightarrow> (string \<times> string list) list \<Rightarrow>
     error + string list option" where
  "get_path_loop g end visited [] = Inr None"
| "get_path_loop g end visited ((current_station, path) # queue) =
     (if current_station = end then Inr (Some path)
      else if current_station \<notin> visited then
        (case map_of g current_station of
           None \<Rightarrow> Inl KeyError
         | Some neighbors \<Rightarrow>
             get_path_loop g end (insert current_station visited)
               (queue @ map (\<lambda>neighbor. (neighbor, path @ [neighbor]))
                          (filter (\<lambda>neighbor. neighbor \<notin> insert current_station visited)
                             neighbors)))
      else get_path_loop g end visited queue)"
  by pat_completeness auto
termination
proof (relation "measures [\<lambda>(g, e, visited, queue). card (fst ` set g - visited),
                          \<lambda>(g, e, visited, queue). length queue]", goal_cases)
  case 1
  show ?case by simp
next
  case (2 g e visited current_station path queue neighbors)
  from 2(3) have "current_station \<in> fst ` set g"
    by (metis map_of_eq_None_iff option.distinct(1))
  with 2(2) have "fst ` set g - insert current_station visited \<subset> fst ` set g - visited"
    by blast
  then have "card (fst ` set g - insert current_station visited) < card (fst ` set g - visited)"
    by (intro psubset_card_mono) auto
  then show ?case by simp
next
  case 3
  then show ?case by simp
qed

definition get_path :: "graph \<Rightarrow> string \<Rightarrow> string \<Rightarrow> error + string list option" where
  "get_path g start end =
     (if map_of g start = None \<or> map_of g end = None then Inr None
      else get_path_loop g end {} [(start, [start])])"

text \<open>\<open>raise ValueError("invalid route")\<close> is the error \<open>ValueError\<close>.\<close>

definition calculate_fare :: "graph \<Rightarrow> string \<Rightarrow> string \<Rightarrow> error + int" where
  "calculate_fare g start end =
     (case shortest_path g start end of
        Inl e \<Rightarrow> Inl e
      | Inr None \<Rightarrow> Inl ValueError
      | Inr (Some distance) \<Rightarrow>
          (let base_fare = 5;
               additional_cost = 1 * (distance - 1);
               total_fare = base_fare + additional_cost
           in Inr (if total_fare \<ge> 5 then total_fare else - 1)))"

definition STATIONS :: "(string \<times> string list) list" where
  "STATIONS =
    [(''central'', [''hasiph'', ''korihasiph'', ''southbridge'', ''parliament'', ''kandami'',
                    ''kutsimati'', ''kemigitech'', ''azadimoph'']),
     (''coastal'', [''venice'', ''waisharkil'', ''korihasiph'', ''hasiph'', ''dern'', ''detech'',
                    ''amiri'', ''snowbing'']),
     (''airport'', [''airport'', ''venice'', ''quramitu'', ''hayalese'', ''university'',
                    ''parliament'', ''distaye'', ''rasir piss'', ''marcosia'', ''sanzaleka'',
                    ''akemane'', ''dern'']),
     (''hattakesh'', [''hasiph'', ''damatsalan'', ''rasir piss'', ''kanahide'', ''kemigitech'',
                      ''yelojaber''])]"

text \<open>The network \<open>main\<close> builds: \<open>for line in STATIONS.values(): metro.add_connections(line)\<close>.\<close>

definition metro :: graph where
  "metro = foldl add_connections [] (map snd STATIONS)"

section \<open>Vocabulary of the statements\<close>

text \<open>
  The class of an action, and the sequences of classes the statements speak of:
  \<open>rides\<close> is \<open>(GoTo, Transfer)*\<close>, \<open>legs\<close> is \<open>(GoTo, Transfer)*, GoTo, ArriveAt\<close>, and an
  \<open>itinerary\<close> is \<open>BeginAt\<close> followed by \<open>legs\<close>.
\<close>

datatype kind = KTransfer | KGoTo | KBeginAt | KArriveAt

fun kind_of :: "action \<Rightarrow> kind" where
  "kind_of (Transfer a f t) = KTransfer"
| "kind_of (GoTo t f l sts tol) = KGoTo"
| "kind_of (BeginAt s) = KBeginAt"
| "kind_of (ArriveAt s) = KArriveAt"

fun rides :: "kind list \<Rightarrow> bool" where
  "rides [] = True"
| "rides (KGoTo # KTransfer # ks) = rides ks"
| "rides ks = False"

fun legs :: "kind list \<Rightarrow> bool" where
  "legs [KGoTo, KArriveAt] = True"
| "legs (KGoTo # KTransfer # ks) = legs ks"
| "legs ks = False"

definition itinerary :: "action list \<Rightarrow> bool" where
  "itinerary route = (case map kind_of route of KBeginAt # ks \<Rightarrow> legs ks | _ \<Rightarrow> False)"

text \<open>
  A \<open>GoTo\<close> is resolved when its line is element 0 of what
  \<open>common_line_between_stations\<close> returns for its stops.
\<close>

definition resolved :: "lister \<Rightarrow> action \<Rightarrow> bool" where
  "resolved lst a = (\<forall>t f l sts tol. a = GoTo t f l sts tol \<longrightarrow>
      (\<exists>cl. common_line_between_stations lst sts = Inr cl \<and> py_get cl 0 = Inr l))"

section \<open>Classes of loop states\<close>

text \<open>
  The states the outer loop of \<open>get_route_from_path\<close> can be in when an iteration starts.
  \<open>good\<close>: the scan is moving forward, the route is \<open>BeginAt\<close> followed by
  \<open>(GoTo, Transfer)*\<close>, and past the first station \<open>curline\<close> is the first line of the
  interchange just left.  \<open>stuck\<close>: the condition holds at \<open>i\<close> and fails at \<open>i + 1\<close> with
  a single-line station at \<open>i\<close>, so every iteration ends where it began.  \<open>doomed\<close>: the
  first two stations share no line and \<open>i\<close> has fallen to 0 or below.  \<open>finished\<close> describes
  the route at \<open>break\<close>.
\<close>

definition good :: "string list \<Rightarrow> state \<Rightarrow> bool" where
  "good path s =
     ((s_i s = 0 \<and> s_route s = []) \<or>
      (1 \<le> s_i s \<and> s_i s < int (length path)
       \<and> (\<exists>pre. s_route s = BeginAt (hd path) # pre \<and> rides (map kind_of pre))
       \<and> (\<exists>ls c. station_lines (path ! nat (s_i s - 1)) = Inr ls \<and> 1 < length ls
                 \<and> py_get ls 0 = Inr c \<and> s_curline s = Some c)))"

definition stuck :: "string list \<Rightarrow> state \<Rightarrow> bool" where
  "stuck path s =
     (0 \<le> s_i s
      \<and> (\<exists>c p ls. s_curline s = Some c
            \<and> cond path (Some c) (s_i s) = Inr True
            \<and> cond path (Some c) (s_i s + 1) = Inr False
            \<and> py_get path (s_i s) = Inr p \<and> station_lines p = Inr ls \<and> \<not> 1 < length ls
            \<and> (s_i s = 0 \<longrightarrow> py_get ls 0 = Inr c)))"

definition doomed :: "string list \<Rightarrow> state \<Rightarrow> bool" where
  "doomed path s = (s_i s \<le> 0 \<and> 2 \<le> length path \<and> (\<forall>c. cond path c 0 = Inr False))"

definition finished :: "string list \<Rightarrow> action list \<Rightarrow> bool" where
  "finished path route =
     (\<exists>pre t f l sts. route = BeginAt (hd path) # pre @ [GoTo t f l sts None, ArriveAt (last path)]
        \<and> rides (map kind_of pre))"

section \<open>Reachability in the network\<close>

text \<open>
  What the statements about \<open>shortest_path\<close> speak of.  \<open>known g x\<close> is \<open>x in self.graph\<close>;
  \<open>edges\<close> is the adjacency the dictionary records; two stations are \<open>connected\<close> when both
  are known and a walk along edges leads from one to the other; \<open>dist\<close> is the length of a
  shortest walk.  \<open>closed\<close>: every neighbour is itself a key.  \<open>bfs_inv\<close> relates the visited
  set and the queue of the search from \<open>s\<close> for \<open>e\<close>.  A \<open>network\<close> is a graph that
  \<open>add_station\<close> and \<open>add_connection\<close> build from the empty dictionary.
\<close>

definition edges :: "graph \<Rightarrow> (string \<times> string) set" where
  "edges g = {(x, y). \<exists>vs. map_of g x = Some vs \<and> y \<in> set vs}"

definition known :: "graph \<Rightarrow> string \<Rightarrow> bool" where
  "known g x = (map_of g x \<noteq> None)"

definition closed :: "graph \<Rightarrow> bool" where
  "closed g = (\<forall>x y. (x, y) \<in> edges g \<longrightarrow> known g y)"

definition dist :: "graph \<Rightarrow> string \<Rightarrow> string \<Rightarrow> nat" where
  "dist g s u = (LEAST k. (s, u) \<in> edges g ^^ k)"

definition connected :: "graph \<Rightarrow> string \<Rightarrow> string \<Rightarrow> bool" where
  "connected g s e = (known g s \<and> known g e \<and> (s, e) \<in> (edges g)\<^sup>*)"

definition bfs_inv ::
  "graph \<Rightarrow> string \<Rightarrow> string \<Rightarrow> string set \<Rightarrow> (string \<times> int) list \<Rightarrow> bool" where
  "bfs_inv g s e V Q =
     (e \<notin> V \<and> (s \<in> V \<or> (s, 0) \<in> set Q)
      \<and> (\<forall>(u, d) \<in> set Q. known g u \<and> (\<exists>k. d = int k \<and> (s, u) \<in> edges g ^^ k))
      \<and> (\<forall>v \<in> V. (s, v) \<in> (edges g)\<^sup>*
            \<and> (\<forall>x. (v, x) \<in> edges g \<longrightarrow>
                  x \<in> V \<or> (\<exists>d'. (x, d') \<in> set Q \<and> d' \<le> int (dist g s v) + 1)))
      \<and> sorted (map snd Q) \<and> (\<forall>(u, d) \<in> set Q. d \<le> snd (hd Q) + 1))"

inductive network :: "graph \<Rightarrow> bool" where
  empty: "network []"
| station: "network g \<Longrightarrow> network (add_station g s)"
| connection: "network g \<Longrightarrow> network (add_connection g a b)"

section \<open>Basic facts\<close>

lemma STATION_LINES_nonempty: "STATION_LINES x = Some ls \<Longrightarrow> ls \<noteq> []"
  by (auto simp: STATION_LINES_def split: if_splits)

lemma set_lister_decl_order: "set_lister decl_order"
proof -
  have "l \<in> set [CTL, CSL, APL, HTL, RLR]" for l by (cases l) simp_all
  then have "set [CTL, CSL, APL, HTL, RLR] = UNIV" by blast
  then have "set (decl_order S) = S" for S
    unfolding decl_order_def set_filter by simp
  then show ?thesis by (simp add: set_lister_def)
qed

lemma set_lister_first: "set_lister lst \<Longrightarrow> S \<noteq> {} \<Longrightarrow> \<exists>c\<in>S. py_get (lst S) 0 = Inr c"
proof -
  assume a: "set_lister lst" "S \<noteq> {}"
  then have s: "set (lst S) = S" by (simp add: set_lister_def)
  with a obtain c cs where "lst S = c # cs" by (cases "lst S") auto
  with s show ?thesis by (auto simp: py_get_def)
qed

lemma set_lister_single: "set_lister lst \<Longrightarrow> py_get (lst {c}) 0 = Inr c"
  using set_lister_first[of lst "{c}"] by auto

text \<open>
  A rule for the outer loop: an invariant \<open>I\<close> of the iterations that continue, and a property
  \<open>Q\<close> of every way the loop can end.
\<close>

lemma route_loop_rule:
  assumes run: "route_loop lst path s = Some res"
    and inv: "I s"
    and step: "\<And>s s'. I s \<Longrightarrow> s_i s < int (length path) \<Longrightarrow> loop_body lst path s = Inr (False, s') \<Longrightarrow> I s'"
    and brk: "\<And>s s'. I s \<Longrightarrow> s_i s < int (length path) \<Longrightarrow> loop_body lst path s = Inr (True, s') \<Longrightarrow> Q (Inr (s_route s'))"
    and err: "\<And>s e. I s \<Longrightarrow> s_i s < int (length path) \<Longrightarrow> loop_body lst path s = Inl e \<Longrightarrow> Q (Inl e)"
    and ext: "\<And>s. I s \<Longrightarrow> \<not> s_i s < int (length path) \<Longrightarrow> Q (Inr (s_route s))"
  shows "Q res"
proof -
  have "lst' = lst \<longrightarrow> path' = path \<longrightarrow> I t \<longrightarrow> Q r"
    if "route_loop lst' path' t = Some r" for lst' path' t r
  proof (rule route_loop.raw_induct[where P = "\<lambda>l p t r. l = lst \<longrightarrow> p = path \<longrightarrow> I t \<longrightarrow> Q r", OF _ that], goal_cases)
    case (1 rl lst' path' t r)
    show ?case
    proof (intro impI)
      assume eq: "lst' = lst" "path' = path" and i: "I t"
      show "Q r"
      proof (cases "s_i t < int (length path)")
        case False
        with 1(2) eq have "r = Inr (s_route t)" by simp
        with ext[OF i False] show ?thesis by simp
      next
        case True
        show ?thesis
        proof (cases "loop_body lst path t")
          case (Inl e)
          with 1(2) eq True have "r = Inl e" by simp
          with err[OF i True Inl] show ?thesis by simp
        next
          case (Inr bs)
          obtain b t' where bs: "bs = (b, t')" by (cases bs)
          show ?thesis
          proof (cases b)
            case True
            with 1(2) eq \<open>s_i t < int (length path)\<close> Inr bs have "r = Inr (s_route t')" by simp
            with brk[OF i \<open>s_i t < int (length path)\<close>] Inr bs True show ?thesis by simp
          next
            case False
            with 1(2) eq \<open>s_i t < int (length path)\<close> Inr bs have r: "rl lst path t' = Some r" by simp
            from step[OF i \<open>s_i t < int (length path)\<close>] Inr bs False have "I t'" by simp
            with 1(1)[OF r] show ?thesis by simp
          qed
        qed
      qed
    qed
  qed
  with run inv show ?thesis by blast
qed

section \<open>Degenerate paths\<close>

text \<open>
  C6 (as stated): \<open>get_route_from_path\<close> applied to a path with zero elements fails with an
  error rather than returning a value.  The loop guard \<open>0 < len(path)\<close> is false at once,
  the pass over the empty route does nothing, and the empty route is returned.
\<close>

theorem C6_empty_path_counterexample: "get_route_from_path decl_order [] = Some (Inr [])"
  by code_simp

text \<open>
  C6 (amended): for a path with zero elements \<open>get_route_from_path\<close> returns the empty
  action list and raises nothing, whatever the enumeration order of sets.
\<close>

theorem C6_empty_path_returns_empty: "get_route_from_path lst [] = Some (Inr [])"
  by (simp add: get_route_from_path_def route_loop.simps init_state_def post_process_def)

text \<open>
  C10: for a single-element path \<open>[x]\<close> with \<open>x\<close> a key of \<open>STATION_LINES\<close>,
  \<open>get_route_from_path\<close> raises the \<open>ValueError\<close> of \<open>common_line_between_stations\<close> on
  the empty buffer; \<open>[x]\<close> is the path \<open>get_path\<close> returns for a query from \<open>x\<close> to \<open>x\<close> in a
  graph that knows \<open>x\<close>.
\<close>

theorem C10_single_station_raises:
  assumes "x \<in> dom STATION_LINES"
  shows "get_route_from_path lst [x] = Some (Inl ValueError)
         \<and> (map_of g x \<noteq> None \<longrightarrow> get_path g x x = Inr (Some [x]))"
proof -
  from assms obtain ls where ls: "STATION_LINES x = Some ls" by blast
  then have "ls \<noteq> []" by (rule STATION_LINES_nonempty)
  then obtain c cs where "ls = c # cs" by (cases ls) auto
  with ls have "route_loop lst [x] init_state = Some (Inl ValueError)"
    by (subst route_loop.simps)
       (simp add: init_state_def loop_body_def begin_block_def py_get_def station_lines_def
          inner_while.simps cond_def handler_def common_line_between_stations_def)
  then show ?thesis by (simp add: get_route_from_path_def get_path_def)
qed

theorem C10_single_station_raises_witness:
  "''hasiph'' \<in> dom STATION_LINES \<and> map_of metro ''hasiph'' \<noteq> None
   \<and> get_route_from_path decl_order [''hasiph''] = Some (Inl ValueError)
   \<and> get_path metro ''hasiph'' ''hasiph'' = Inr (Some [''hasiph''])"
proof -
  have h: "''hasiph'' \<in> dom STATION_LINES" by (simp add: STATION_LINES_def)
  have m: "map_of metro ''hasiph'' \<noteq> None" by code_simp
  from C10_single_station_raises[OF h, of decl_order metro] h m show ?thesis by simp
qed

section \<open>Concrete paths of the built network\<close>

text \<open>
  C2, evaluated at the path the claim names: \<open>get_path\<close> returns
  \<open>[southbridge, parliament, university]\<close> for the query from southbridge to university, and
  on it \<open>get_route_from_path\<close> raises \<open>IndexError\<close>: the scan walks through parliament
  without a transfer, and the pass over the route finds no line common to the three stops.
\<close>

theorem C2_parliament_path_raises:
  "get_path metro ''southbridge'' ''university''
     = Inr (Some [''southbridge'', ''parliament'', ''university''])
   \<and> get_route_from_path decl_order [''southbridge'', ''parliament'', ''university'']
     = Some (Inl IndexError)"
  by code_simp

text \<open>
  C8 (as stated): the fare from hasiph to southbridge is 7.  The distance is 2 hops and the
  fare \<open>5 + (2 - 1)\<close>.
\<close>

theorem C8_fare_counterexample: "calculate_fare metro ''hasiph'' ''southbridge'' \<noteq> Inr 7"
  by code_simp

text \<open>
  C8 (amended): for the path \<open>[hasiph, korihasiph, southbridge]\<close> the compiled and
  post-processed itinerary is \<open>BeginAt(hasiph)\<close>, \<open>GoTo(to=southbridge, from=hasiph,
  line=Central, stops=[hasiph, korihasiph, southbridge])\<close>, \<open>ArriveAt(southbridge)\<close>, whatever
  the enumeration order of sets, and \<open>calculate_fare("hasiph", "southbridge")\<close> is 6 on the
  built network.
\<close>

theorem C8_single_line_scenario:
  assumes "set_lister lst"
  shows "get_route_from_path lst [''hasiph'', ''korihasiph'', ''southbridge''] =
     Some (Inr [BeginAt ''hasiph'',
                GoTo ''southbridge'' ''hasiph'' CTL [''hasiph'', ''korihasiph'', ''southbridge''] None,
                ArriveAt ''southbridge''])
   \<and> calculate_fare metro ''hasiph'' ''southbridge'' = Inr 6"
proof -
  from set_lister_first[OF assms, of "{CTL, CSL}"]
  obtain c where c: "py_get (lst {CTL, CSL}) 0 = Inr c" by auto
  have i: "{CTL, CSL, HTL} \<inter> {CTL, CSL} = {CTL, CSL}" by auto
  have loop: "route_loop lst [''hasiph'', ''korihasiph'', ''southbridge''] init_state =
     Some (Inr [BeginAt ''hasiph'',
                GoTo ''southbridge'' ''hasiph'' c [''hasiph'', ''korihasiph'', ''southbridge''] None,
                ArriveAt ''southbridge''])"
    using c
    by (subst route_loop.simps)
       (simp add: init_state_def loop_body_def begin_block_def py_get_def[of "_ # _"]
          station_lines_def STATION_LINES_def inner_while.simps cond_def has_common_def
          handler_def common_line_between_stations_def i Let_def)
  have post: "post_process lst [BeginAt ''hasiph'',
                GoTo ''southbridge'' ''hasiph'' c [''hasiph'', ''korihasiph'', ''southbridge''] None,
                ArriveAt ''southbridge''] = Inr [BeginAt ''hasiph'',
                GoTo ''southbridge'' ''hasiph'' CTL [''hasiph'', ''korihasiph'', ''southbridge''] None,
                ArriveAt ''southbridge'']"
    using set_lister_single[OF assms, of CTL]
    by (simp add: post_process_def upt_rec post_step_def common_line_between_stations_def
          station_lines_def STATION_LINES_def py_get_def[of "_ # _"] i)
  have fare: "calculate_fare metro ''hasiph'' ''southbridge'' = Inr 6" by code_simp
  from loop post fare show ?thesis by (simp add: get_route_from_path_def)
qed

theorem C8_single_line_scenario_witness:
  "set_lister decl_order
   \<and> get_route_from_path decl_order [''hasiph'', ''korihasiph'', ''southbridge''] =
     Some (Inr [BeginAt ''hasiph'',
                GoTo ''southbridge'' ''hasiph'' CTL [''hasiph'', ''korihasiph'', ''southbridge''] None,
                ArriveAt ''southbridge''])
   \<and> calculate_fare metro ''hasiph'' ''southbridge'' = Inr 6"
  using C8_single_line_scenario[OF set_lister_decl_order] set_lister_decl_order by simp

text \<open>
  One iteration of the outer loop on \<open>[waisharkil, venice, quramitu, hayalese]\<close> from a state
  with \<open>i = 2\<close> on the Coastal line: the condition is false at once, \<open>i\<close> steps back to
  venice, whose first line is Coastal again, a \<open>GoTo\<close> and a \<open>Transfer\<close> are appended, and
  \<open>i\<close> is 2 again.
\<close>

lemma spin_step:
  assumes "s_begin s = ''venice''" "s_buf s = [''venice'', ''quramitu'']" "s_i s = 2"
    "s_curline s = Some CSL"
  shows "\<exists>s'. loop_body lst [''waisharkil'', ''venice'', ''quramitu'', ''hayalese''] s
            = Inr (False, s')
          \<and> s_begin s' = ''venice'' \<and> s_buf s' = [''venice'', ''quramitu''] \<and> s_i s' = 2
          \<and> s_curline s' = Some CSL"
  using assms
  by (simp add: loop_body_def begin_block_def inner_while.simps cond_def py_get_def
        station_lines_def STATION_LINES_def has_common_def transfer_block_def)

lemma spin_forever:
  assumes "s_begin s = ''venice''" "s_buf s = [''venice'', ''quramitu'']" "s_i s = 2"
    "s_curline s = Some CSL"
  shows "route_loop lst [''waisharkil'', ''venice'', ''quramitu'', ''hayalese''] s = None"
proof (rule ccontr)
  let ?path = "[''waisharkil'', ''venice'', ''quramitu'', ''hayalese'']"
  let ?I = "\<lambda>s. s_begin s = ''venice'' \<and> s_buf s = [''venice'', ''quramitu''] \<and> s_i s = 2
              \<and> s_curline s = Some CSL"
  assume "route_loop lst ?path s \<noteq> None"
  then obtain res where run: "route_loop lst ?path s = Some res" by blast
  have "(\<lambda>r. False) res"
  proof (rule route_loop_rule[OF run, where I = ?I])
    show "?I s" using assms by simp
  next
    fix t t' assume "?I t" "loop_body lst ?path t = Inr (False, t')"
    with spin_step[of t lst] show "?I t'" by auto
  next
    fix t t' assume "?I t" "loop_body lst ?path t = Inr (True, t')"
    with spin_step[of t lst] show False by auto
  next
    fix t e assume "?I t" "loop_body lst ?path t = Inl e"
    with spin_step[of t lst] show False by auto
  next
    fix t assume "?I t" "\<not> s_i t < int (length ?path)"
    then show False by simp
  qed
  then show False .
qed

text \<open>
  C5, evaluated at a path of the built network: \<open>get_path\<close> returns
  \<open>[waisharkil, venice, quramitu, hayalese]\<close> for the query from waisharkil to hayalese, and
  on it \<open>get_route_from_path\<close> never returns, whatever the enumeration order of sets.
\<close>

theorem C5_scan_never_returns:
  "get_path metro ''waisharkil'' ''hayalese''
     = Inr (Some [''waisharkil'', ''venice'', ''quramitu'', ''hayalese''])
   \<and> get_route_from_path lst [''waisharkil'', ''venice'', ''quramitu'', ''hayalese''] = None"
proof -
  have p: "get_path metro ''waisharkil'' ''hayalese''
     = Inr (Some [''waisharkil'', ''venice'', ''quramitu'', ''hayalese''])"
    by code_simp
  have "route_loop lst [''waisharkil'', ''venice'', ''quramitu'', ''hayalese''] init_state = None"
    by (subst route_loop.simps)
       (simp add: init_state_def loop_body_def begin_block_def inner_while.simps cond_def
          py_get_def station_lines_def STATION_LINES_def has_common_def transfer_block_def
          spin_forever)
  with p show ?thesis by (simp add: get_route_from_path_def)
qed

section \<open>The pass over the route resolves every \<open>GoTo\<close>\<close>

lemma post_step_length: "post_step lst k r = Inr r' \<Longrightarrow> length r' = length r"
  by (auto simp: post_step_def split: action.splits sum.splits)

lemma post_step_other: "post_step lst k r = Inr r' \<Longrightarrow> j \<noteq> k \<Longrightarrow> r' ! j = r ! j"
  by (auto simp: post_step_def split: action.splits sum.splits)

lemma post_step_GoTo:
  assumes "post_step lst k r = Inr r'" "k < length r" "r' ! k = GoTo t f l sts tol"
  shows "\<exists>cl. common_line_between_stations lst sts = Inr cl \<and> py_get cl 0 = Inr l"
  using assms by (auto simp: post_step_def split: action.splits sum.splits)

lemma post_steps_spec:
  "post_steps lst ks r = Inr r' \<Longrightarrow> distinct ks \<Longrightarrow>
     length r' = length r \<and> (\<forall>j. j \<notin> set ks \<longrightarrow> r' ! j = r ! j)
     \<and> (\<forall>k\<in>set ks. k < length r \<longrightarrow> resolved lst (r' ! k))"
proof (induction ks arbitrary: r)
  case Nil
  then show ?case by simp
next
  case (Cons k ks)
  from Cons.prems obtain r1 where s1: "post_step lst k r = Inr r1" and s2: "post_steps lst ks r1 = Inr r'"
    by (auto split: sum.splits)
  from Cons.prems have d: "distinct ks" "k \<notin> set ks" by auto
  note ih = Cons.IH[OF s2 d(1)]
  note len = post_step_length[OF s1]
  have "resolved lst (r' ! k)" if "k < length r"
  proof -
    from ih d(2) have "r' ! k = r1 ! k" by blast
    with post_step_GoTo[OF s1 that] show ?thesis by (auto simp: resolved_def)
  qed
  moreover have "r' ! j = r ! j" if "j \<notin> set (k # ks)" for j
    using ih that post_step_other[OF s1, of j] by auto
  ultimately show ?case using ih len by auto
qed

lemma post_process_resolved:
  assumes "post_process lst r = Inr r'" "a \<in> set r'"
  shows "resolved lst a"
proof -
  from assms(1) have p: "post_steps lst [0..<length r] r = Inr r'" by (simp add: post_process_def)
  from post_steps_spec[OF p] have len: "length r' = length r"
    and res: "\<forall>k<length r. resolved lst (r' ! k)" by auto
  from assms(2) obtain k where "k < length r'" "r' ! k = a" by (auto simp: in_set_conv_nth)
  with len res show ?thesis by auto
qed

lemma line_sets_spec:
  "line_sets sts = Inr lines \<Longrightarrow>
     length lines = length sts \<and> (\<forall>n<length sts. \<exists>ls. STATION_LINES (sts ! n) = Some ls \<and> lines ! n = set ls)"
proof (induction sts arbitrary: lines)
  case Nil
  then show ?case by simp
next
  case (Cons s sts)
  from Cons.prems obtain ls rest where a: "STATION_LINES s = Some ls" "line_sets sts = Inr rest" "lines = set ls # rest"
    by (auto simp: station_lines_def split: sum.splits option.splits)
  from Cons.IH[OF a(2)] a show ?case by (auto simp: nth_Cons split: nat.splits)
qed

lemma foldl_Int: "foldl (\<inter>) A Bs = A \<inter> \<Inter> (set Bs)"
  by (induction Bs arbitrary: A) auto

lemma common_line_member:
  assumes "common_line_between_stations lst sts = Inr cl" "l \<in> set cl" "set_lister lst" "s \<in> set sts"
  shows "\<exists>ls. STATION_LINES s = Some ls \<and> l \<in> set ls"
proof -
  from assms(1) obtain lines where ls: "line_sets sts = Inr lines" and cl: "cl = lst (foldl (\<inter>) (hd lines) (tl lines))"
    by (auto simp: common_line_between_stations_def split: if_splits sum.splits)
  from assms(4) obtain n where n: "n < length sts" "sts ! n = s" by (auto simp: in_set_conv_nth)
  from line_sets_spec[OF ls] n obtain ks where ks: "STATION_LINES s = Some ks" "lines ! n = set ks" "length lines = length sts" by auto
  then have ne: "lines \<noteq> []" using n by auto
  from assms(2,3) cl have "l \<in> foldl (\<inter>) (hd lines) (tl lines)" by (simp add: set_lister_def)
  then have "l \<in> \<Inter> (set lines)" using ne by (cases lines) (auto simp: foldl_Int)
  moreover have "lines ! n \<in> set lines" using n(1) ks(3) by (metis nth_mem)
  ultimately show ?thesis using ks by auto
qed

lemma py_get_0_member: "py_get xs 0 = Inr x \<Longrightarrow> x \<in> set xs"
  by (cases xs) (auto simp: py_get_def)

text \<open>
  C1 (as stated): the intersection of the line sets of the stops of a \<open>GoTo\<close> yields exactly
  the line recorded on it.  For \<open>[hasiph, korihasiph]\<close> the route holds one \<open>GoTo\<close> over both
  stations, which share the Central and the Coastal line: the intersection has two members,
  and the \<open>GoTo\<close> records one of them.
\<close>

theorem C1_common_line_counterexample:
  "get_route_from_path decl_order [''hasiph'', ''korihasiph'']
     = Some (Inr [BeginAt ''hasiph'',
                  GoTo ''korihasiph'' ''hasiph'' CTL [''hasiph'', ''korihasiph''] None,
                  ArriveAt ''korihasiph''])
   \<and> common_line_between_stations decl_order [''hasiph'', ''korihasiph''] = Inr [CTL, CSL]"
  by code_simp

text \<open>
  C1 (amended): for every path on which \<open>get_route_from_path\<close> returns a route, every
  \<open>GoTo\<close> of the route has at least one stop, and the line recorded on it is element 0 of
  what \<open>common_line_between_stations\<close> returns for its stops, hence a member of the line set
  of every one of its stops, that is, of their intersection.
\<close>

theorem C1_goto_line_serves_all_stops:
  assumes "set_lister lst" "get_route_from_path lst path = Some (Inr route)"
    and "GoTo t f l sts tol \<in> set route"
  shows "sts \<noteq> []
       \<and> (\<exists>cl. common_line_between_stations lst sts = Inr cl \<and> py_get cl 0 = Inr l)
       \<and> (\<forall>s\<in>set sts. \<exists>ls. STATION_LINES s = Some ls \<and> l \<in> set ls)"
proof -
  from assms(2) obtain r0 where "post_process lst r0 = Inr route"
    by (auto simp: get_route_from_path_def split: option.splits sum.splits)
  from post_process_resolved[OF this assms(3)]
  obtain cl where cl: "common_line_between_stations lst sts = Inr cl" "py_get cl 0 = Inr l"
    by (auto simp: resolved_def)
  from cl(1) have "sts \<noteq> []" by (auto simp: common_line_between_stations_def split: if_splits)
  moreover from cl(2) have "l \<in> set cl" by (rule py_get_0_member)
  ultimately show ?thesis using cl common_line_member[OF cl(1) _ assms(1)] by blast
qed

theorem C1_goto_line_serves_all_stops_witness:
  "set_lister decl_order
   \<and> get_route_from_path decl_order [''airport'', ''venice'', ''waisharkil'', ''korihasiph'']
       = Some (Inr [BeginAt ''airport'',
                    GoTo ''venice'' ''airport'' APL [''airport'', ''venice''] (Some CSL),
                    Transfer ''venice'' APL CSL,
                    GoTo ''korihasiph'' ''venice'' CSL
                      [''venice'', ''waisharkil'', ''waisharkil'', ''korihasiph''] None,
                    ArriveAt ''korihasiph''])
   \<and> [''airport'', ''venice''] \<noteq> []
   \<and> (\<exists>ls. STATION_LINES ''airport'' = Some ls \<and> APL \<in> set ls)
   \<and> (\<exists>ls. STATION_LINES ''venice'' = Some ls \<and> APL \<in> set ls)"
proof -
  let ?route = "[BeginAt ''airport'',
                 GoTo ''venice'' ''airport'' APL [''airport'', ''venice''] (Some CSL),
                 Transfer ''venice'' APL CSL,
                 GoTo ''korihasiph'' ''venice'' CSL
                   [''venice'', ''waisharkil'', ''waisharkil'', ''korihasiph''] None,
                 ArriveAt ''korihasiph'']"
  have r: "get_route_from_path decl_order [''airport'', ''venice'', ''waisharkil'', ''korihasiph'']
       = Some (Inr ?route)"
    by code_simp
  have m: "GoTo ''venice'' ''airport'' APL [''airport'', ''venice''] (Some CSL) \<in> set ?route"
    by simp
  from C1_goto_line_serves_all_stops[OF set_lister_decl_order r m] r set_lister_decl_order
  show ?thesis by simp
qed

section \<open>The shape of the compiled route\<close>

lemma rides_append: "rides ks \<Longrightarrow> rides (ks @ [KGoTo, KTransfer])"
  by (induction ks rule: rides.induct) auto

lemma rides_legs: "rides ks \<Longrightarrow> legs (ks @ [KGoTo, KArriveAt])"
  by (induction ks rule: rides.induct) auto

lemma rides_last: "rides ks \<Longrightarrow> ks \<noteq> [] \<Longrightarrow> last ks = KTransfer"
  by (induction ks rule: rides.induct) auto

lemma cond_True_get: "cond path c i = Inr True \<Longrightarrow> \<exists>p. py_get path i = Inr p"
  by (auto simp: cond_def split: sum.splits)

lemma cond_Inr_bound: "cond path c i = Inr b \<Longrightarrow> i + 1 < int (length path) \<and> - int (length path) \<le> i"
  by (auto simp: cond_def py_get_def split: sum.splits if_splits)

lemma cond_False_any:
  "cond path (Some c) i = Inr False \<Longrightarrow> py_get path i = Inr p \<Longrightarrow> station_lines p = Inr ls
     \<Longrightarrow> c \<in> set ls \<Longrightarrow> cond path c' i = Inr False"
  by (auto simp: cond_def split: sum.splits if_splits option.splits)

lemma cond_IndexError_last:
  "cond path c m = Inl IndexError \<Longrightarrow> py_get path m = Inr p \<Longrightarrow> m = int (length path) - 1"
  by (auto simp: cond_def station_lines_def py_get_def split: sum.splits if_splits option.splits)

lemma py_get_nth: "py_get xs i = Inr x \<Longrightarrow> 0 \<le> i \<Longrightarrow> x = xs ! nat i \<and> i < int (length xs)"
  by (auto simp: py_get_def split: if_splits)

lemma py_get_last: "xs \<noteq> [] \<Longrightarrow> py_get xs (int (length xs) - 1) = Inr (last xs)"
  by (cases xs rule: rev_cases) (auto simp: py_get_def nth_append)

lemma py_get_0_hd: "py_get xs 0 = Inr x \<Longrightarrow> x = hd xs \<and> xs \<noteq> []"
  by (cases xs) (auto simp: py_get_def)

lemma inner_while_spec:
  "inner_while path c i buf = (r, m, buf') \<Longrightarrow>
     i \<le> m \<and> (\<forall>j. i \<le> j \<and> j < m \<longrightarrow> cond path c j = Inr True)
     \<and> (case r of None \<Rightarrow> cond path c m = Inr False | Some e \<Rightarrow> cond path c m = Inl e)"
proof (induction path c i buf rule: inner_while.induct)
  case (1 path c i buf)
  show ?case
  proof (cases "cond path c i")
    case (Inl e)
    with 1(2) show ?thesis by (auto simp: inner_while.simps[of path c i])
  next
    case (Inr b)
    show ?thesis
    proof (cases b)
      case False
      with Inr 1(2) show ?thesis by (auto simp: inner_while.simps[of path c i])
    next
      case True
      from Inr True have ct: "cond path c i = Inr True" by simp
      from cond_True_get[OF ct] obtain p where p: "py_get path i = Inr p" by blast
      with Inr True 1(2) have rec: "inner_while path c (i + 1) (buf @ [p]) = (r, m, buf')"
        by (simp add: inner_while.simps[of path c i])
      from 1(1)[OF Inr True p rec] have ih: "i + 1 \<le> m"
        "\<forall>j. i + 1 \<le> j \<and> j < m \<longrightarrow> cond path c j = Inr True"
        "(case r of None \<Rightarrow> cond path c m = Inr False | Some e \<Rightarrow> cond path c m = Inl e)" by auto
      have "cond path c j = Inr True" if "i \<le> j" "j < m" for j
      proof (cases "j = i")
        case True with ct show ?thesis by simp
      next
        case False with that ih(2) show ?thesis by auto
      qed
      with ih show ?thesis by auto
    qed
  qed
qed

lemma begin_block_spec:
  "begin_block path s = Inr s1 \<Longrightarrow>
     s_i s1 = s_i s \<and> s_buf s1 = s_buf s \<and> (s_i s \<noteq> 0 \<longrightarrow> s1 = s)
     \<and> (s_i s = 0 \<longrightarrow> (\<exists>p ls c. py_get path 0 = Inr p \<and> station_lines p = Inr ls
            \<and> py_get ls 0 = Inr c \<and> s_route s1 = s_route s @ [BeginAt p]
            \<and> s_curline s1 = Some c))"
  by (auto simp: begin_block_def split: if_splits sum.splits)

lemma transfer_block_spec:
  "transfer_block path s = Inr s' \<Longrightarrow>
     \<exists>p ls. py_get path (s_i s) = Inr p \<and> station_lines p = Inr ls
       \<and> (\<not> 1 < length ls \<longrightarrow> s' = s)
       \<and> (1 < length ls \<longrightarrow> (\<exists>c nc. py_get ls 0 = Inr c \<and> s_curline s' = Some c
             \<and> s_i s' = s_i s + 1
             \<and> s_route s' = s_route s @ [GoTo p (s_begin s) c (s_buf s) None, Transfer p nc c]))"
  by (auto simp: transfer_block_def split: if_splits sum.splits)

lemma handler_spec:
  "handler lst path s = Inr (brk, s') \<Longrightarrow>
     (\<not> brk \<longrightarrow> s' = s \<and> (s_i s = int (length path) - 1 \<longrightarrow>
          (\<exists>lastact. py_get (s_route s) (int (length (s_route s)) - 1) = Inr lastact
              \<and> is_GoTo lastact)))
     \<and> (brk \<longrightarrow> s_i s = int (length path) - 1
          \<and> (\<exists>lastact p l r'. py_get (s_route s) (int (length (s_route s)) - 1) = Inr lastact
                \<and> \<not> is_GoTo lastact \<and> py_get path (s_i s) = Inr p
                \<and> s_route s' = r' @ [GoTo p (s_begin s) l (s_buf s @ [p]) None, ArriveAt p]
                \<and> ((\<exists>a f t. lastact = Transfer a f t
                        \<and> r' = (s_route s)[length (s_route s) - 1 := Transfer a f l])
                     \<or> r' = s_route s)))"
  by (auto simp: handler_def Let_def split: if_splits sum.splits action.splits)

lemma loop_body_Inr:
  assumes "loop_body lst path s = Inr (brk, s')"
  shows "\<exists>s1 r m buf'. begin_block path s = Inr s1
      \<and> inner_while path (s_curline s1) (s_i s1) (s_buf s1) = (r, m, buf')
      \<and> ((r = None \<and> \<not> brk \<and> transfer_block path (s1\<lparr>s_i := m - 1, s_buf := buf'\<rparr>) = Inr s')
         \<or> (r = Some IndexError \<and> brk
              \<and> handler lst path (s1\<lparr>s_i := m, s_buf := buf'\<rparr>) = Inr (True, s'))
         \<or> (r = Some IndexError \<and> \<not> brk
              \<and> handler lst path (s1\<lparr>s_i := m, s_buf := buf'\<rparr>)
                   = Inr (False, s1\<lparr>s_i := m, s_buf := buf'\<rparr>)
              \<and> transfer_block path (s1\<lparr>s_i := m, s_buf := buf'\<rparr>) = Inr s'))"
proof -
  from assms obtain s1 where b: "begin_block path s = Inr s1"
    by (auto simp: loop_body_def split: sum.splits)
  obtain r m buf' where w: "inner_while path (s_curline s1) (s_i s1) (s_buf s1) = (r, m, buf')"
    by (cases "inner_while path (s_curline s1) (s_i s1) (s_buf s1)") auto
  show ?thesis
  proof (cases r)
    case None
    with assms b w show ?thesis
      by (auto simp: loop_body_def split: sum.splits)
  next
    case (Some e)
    with assms b w have e: "e = IndexError"
      by (auto simp: loop_body_def split: sum.splits if_splits)
    from assms b w Some e obtain b2 s2 where h: "handler lst path (s1\<lparr>s_i := m, s_buf := buf'\<rparr>) = Inr (b2, s2)"
      by (auto simp: loop_body_def split: sum.splits if_splits)
    show ?thesis
    proof (cases b2)
      case True
      with assms b w Some e h show ?thesis by (auto simp: loop_body_def)
    next
      case False
      with handler_spec[OF h] have "s2 = s1\<lparr>s_i := m, s_buf := buf'\<rparr>" by simp
      with False assms b w Some e h show ?thesis
        by (auto simp: loop_body_def split: sum.splits)
    qed
  qed
qed

lemma is_GoTo_kind: "is_GoTo a = (kind_of a = KGoTo)"
  by (cases a) auto

lemma good_last_not_GoTo:
  assumes "r = BeginAt h # pre" "rides (map kind_of pre)"
  shows "py_get r (int (length r) - 1) = Inr (last r) \<and> kind_of (last r) \<in> {KBeginAt, KTransfer}"
proof -
  from assms(1) have ne: "r \<noteq> []" by simp
  have "kind_of (last r) \<in> {KBeginAt, KTransfer}"
  proof (cases "pre = []")
    case True with assms(1) show ?thesis by simp
  next
    case False
    with rides_last[OF assms(2)] have "last (map kind_of pre) = KTransfer" by simp
    with False assms(1) show ?thesis by (simp add: last_map)
  qed
  with py_get_last[OF ne] show ?thesis by simp
qed

lemma fallthrough_last_GoTo:
  assumes c: "cond path c m = Inl IndexError"
    and i: "s_i s2 = m"
    and h: "handler lst path s2 = Inr (False, s2)"
    and t: "transfer_block path s2 = Inr s'"
  shows "\<exists>lastact. py_get (s_route s2) (int (length (s_route s2)) - 1) = Inr lastact \<and> is_GoTo lastact"
proof -
  from transfer_block_spec[OF t] i obtain p where "py_get path m = Inr p" by auto
  from cond_IndexError_last[OF c this] have "m = int (length path) - 1" .
  with handler_spec[OF h] i show ?thesis by auto
qed

lemma stuck_step:
  assumes st: "stuck path s" and lb: "loop_body lst path s = Inr (brk, s')"
  shows "\<not> brk \<and> stuck path s'"
proof -
  from st obtain c p ls where s: "0 \<le> s_i s" "s_curline s = Some c"
    "cond path (Some c) (s_i s) = Inr True" "cond path (Some c) (s_i s + 1) = Inr False"
    "py_get path (s_i s) = Inr p" "station_lines p = Inr ls" "\<not> 1 < length ls"
    "s_i s = 0 \<longrightarrow> py_get ls 0 = Inr c"
    by (auto simp: stuck_def)
  from loop_body_Inr[OF lb] obtain s1 r m buf' where b: "begin_block path s = Inr s1"
    and w: "inner_while path (s_curline s1) (s_i s1) (s_buf s1) = (r, m, buf')"
    and cs: "(r = None \<and> \<not> brk \<and> transfer_block path (s1\<lparr>s_i := m - 1, s_buf := buf'\<rparr>) = Inr s')
         \<or> (r = Some IndexError \<and> brk
              \<and> handler lst path (s1\<lparr>s_i := m, s_buf := buf'\<rparr>) = Inr (True, s'))
         \<or> (r = Some IndexError \<and> \<not> brk
              \<and> handler lst path (s1\<lparr>s_i := m, s_buf := buf'\<rparr>)
                   = Inr (False, s1\<lparr>s_i := m, s_buf := buf'\<rparr>)
              \<and> transfer_block path (s1\<lparr>s_i := m, s_buf := buf'\<rparr>) = Inr s')"
    by blast
  from begin_block_spec[OF b] s have s1: "s_i s1 = s_i s" "s_curline s1 = Some c"
    by (cases "s_i s = 0"; auto)+
  from w s1 have w': "inner_while path (Some c) (s_i s) (s_buf s1) = (r, m, buf')" by simp
  from inner_while_spec[OF w'] have iw: "s_i s \<le> m"
    "\<forall>j. s_i s \<le> j \<and> j < m \<longrightarrow> cond path (Some c) j = Inr True"
    "case r of None \<Rightarrow> cond path (Some c) m = Inr False | Some e \<Rightarrow> cond path (Some c) m = Inl e"
    by auto
  have m1: "m \<noteq> s_i s" using iw(3) s(3) by (auto split: option.splits)
  have m2: "\<not> s_i s + 1 < m" using iw(2) s(4) by auto
  from m1 m2 iw(1) have m: "m = s_i s + 1" by simp
  with iw(3) s(4) have r: "r = None" by (cases r) auto
  with cs m have nb: "\<not> brk" and t: "transfer_block path (s1\<lparr>s_i := s_i s, s_buf := buf'\<rparr>) = Inr s'"
    by auto
  from transfer_block_spec[OF t] s(5,6,7) have s': "s' = s1\<lparr>s_i := s_i s, s_buf := buf'\<rparr>" by auto
  have "stuck path s'"
    unfolding stuck_def using s s' s1 by auto
  with nb show ?thesis by simp
qed

lemma doomed_step:
  assumes d: "doomed path s" and lb: "loop_body lst path s = Inr (brk, s')"
  shows "\<not> brk \<and> doomed path s'"
proof -
  from d have s: "s_i s \<le> 0" "2 \<le> length path" "\<And>c. cond path c 0 = Inr False"
    by (auto simp: doomed_def)
  from loop_body_Inr[OF lb] obtain s1 r m buf' where b: "begin_block path s = Inr s1"
    and w: "inner_while path (s_curline s1) (s_i s1) (s_buf s1) = (r, m, buf')"
    and cs: "(r = None \<and> \<not> brk \<and> transfer_block path (s1\<lparr>s_i := m - 1, s_buf := buf'\<rparr>) = Inr s')
         \<or> (r = Some IndexError \<and> brk
              \<and> handler lst path (s1\<lparr>s_i := m, s_buf := buf'\<rparr>) = Inr (True, s'))
         \<or> (r = Some IndexError \<and> \<not> brk
              \<and> handler lst path (s1\<lparr>s_i := m, s_buf := buf'\<rparr>)
                   = Inr (False, s1\<lparr>s_i := m, s_buf := buf'\<rparr>)
              \<and> transfer_block path (s1\<lparr>s_i := m, s_buf := buf'\<rparr>) = Inr s')"
    by blast
  from begin_block_spec[OF b] have s1: "s_i s1 = s_i s" by simp
  from w s1 have w': "inner_while path (s_curline s1) (s_i s) (s_buf s1) = (r, m, buf')" by simp
  from inner_while_spec[OF w'] have iw: "s_i s \<le> m"
    "\<forall>j. s_i s \<le> j \<and> j < m \<longrightarrow> cond path (s_curline s1) j = Inr True"
    "case r of None \<Rightarrow> cond path (s_curline s1) m = Inr False | Some e \<Rightarrow> cond path (s_curline s1) m = Inl e"
    by auto
  have m0: "m \<le> 0"
  proof (rule ccontr)
    assume "\<not> m \<le> 0"
    with s(1) iw(2) have "cond path (s_curline s1) 0 = Inr True" by auto
    with s(3) show False by simp
  qed
  from cs show ?thesis
  proof (elim disjE conjE)
    assume t: "transfer_block path (s1\<lparr>s_i := m - 1, s_buf := buf'\<rparr>) = Inr s'" and nb: "\<not> brk"
    from transfer_block_spec[OF t] have "s_i s' = m - 1 \<or> s_i s' = m" by auto
    with m0 s nb show ?thesis by (auto simp: doomed_def)
  next
    assume h: "handler lst path (s1\<lparr>s_i := m, s_buf := buf'\<rparr>) = Inr (True, s')"
    from handler_spec[OF h] have "m = int (length path) - 1" by simp
    with m0 s(2) show ?thesis by simp
  next
    assume r: "r = Some IndexError" and nb: "\<not> brk"
      and t: "transfer_block path (s1\<lparr>s_i := m, s_buf := buf'\<rparr>) = Inr s'"
    from r iw(3) s(3) have "m \<noteq> 0" by auto
    moreover from transfer_block_spec[OF t] have "s_i s' = m \<or> s_i s' = m + 1" by auto
    ultimately show ?thesis using m0 s nb by (auto simp: doomed_def)
  qed
qed

lemma patch_last:
  assumes r: "r = BeginAt h # pre" and rd: "rides (map kind_of pre)"
    and r': "(\<exists>a f t. last r = Transfer a f t \<and> r' = r[length r - 1 := Transfer a f l]) \<or> r' = r"
  shows "\<exists>pre'. r' = BeginAt h # pre' \<and> rides (map kind_of pre')"
  using r'
proof
  assume "r' = r"
  with r rd show ?thesis by simp
next
  assume "\<exists>a f t. last r = Transfer a f t \<and> r' = r[length r - 1 := Transfer a f l]"
  then obtain a f t where lt: "last r = Transfer a f t" and u: "r' = r[length r - 1 := Transfer a f l]"
    by blast
  from lt r have ne: "pre \<noteq> []" by auto
  with lt r have lp: "last pre = Transfer a f t" by simp
  have k: "(map kind_of pre) ! (length pre - 1) = KTransfer"
    using ne lp by (simp add: last_conv_nth)
  have "map kind_of (pre[length pre - 1 := Transfer a f l]) = (map kind_of pre)[length pre - 1 := KTransfer]"
    by (simp add: map_update)
  also have "\<dots> = map kind_of pre" using k by (metis list_update_id)
  finally have m: "map kind_of (pre[length pre - 1 := Transfer a f l]) = map kind_of pre" .
  have "r[length r - 1 := Transfer a f l] = BeginAt h # pre[length pre - 1 := Transfer a f l]"
    using r ne by (cases pre) auto
  with u m rd show ?thesis by simp
qed

lemma good_entry:
  assumes g: "good path s" and b: "begin_block path s = Inr s1" and ne: "path \<noteq> []"
  shows "\<exists>c pre. 0 \<le> s_i s \<and> s_i s1 = s_i s \<and> s_curline s1 = Some c
      \<and> s_route s1 = BeginAt (hd path) # pre \<and> rides (map kind_of pre)
      \<and> ((s_i s = 0 \<and> (\<exists>ls. station_lines (hd path) = Inr ls \<and> py_get ls 0 = Inr c))
         \<or> (1 \<le> s_i s \<and> (\<exists>ls. station_lines (path ! nat (s_i s - 1)) = Inr ls \<and> 1 < length ls)))"
proof (cases "s_i s = 0")
  case True
  with g have r: "s_route s = []" by (auto simp: good_def)
  from begin_block_spec[OF b] True obtain p ls c where
    "py_get path 0 = Inr p" "station_lines p = Inr ls" "py_get ls 0 = Inr c"
    "s_route s1 = s_route s @ [BeginAt p]" "s_curline s1 = Some c" "s_i s1 = s_i s"
    by auto
  with r True py_get_0_hd[of path p] show ?thesis by auto
next
  case False
  with begin_block_spec[OF b] have "s1 = s" by simp
  with g False show ?thesis by (auto simp: good_def)
qed

lemma good_step:
  assumes g: "good path s" and lb: "loop_body lst path s = Inr (brk, s')" and ne: "path \<noteq> []"
  shows "(brk \<longrightarrow> finished path (s_route s'))
       \<and> (\<not> brk \<longrightarrow> good path s' \<or> stuck path s' \<or> doomed path s')"
proof -
  from loop_body_Inr[OF lb] obtain s1 r m buf' where b: "begin_block path s = Inr s1"
    and w: "inner_while path (s_curline s1) (s_i s1) (s_buf s1) = (r, m, buf')"
    and cs: "(r = None \<and> \<not> brk \<and> transfer_block path (s1\<lparr>s_i := m - 1, s_buf := buf'\<rparr>) = Inr s')
         \<or> (r = Some IndexError \<and> brk
              \<and> handler lst path (s1\<lparr>s_i := m, s_buf := buf'\<rparr>) = Inr (True, s'))
         \<or> (r = Some IndexError \<and> \<not> brk
              \<and> handler lst path (s1\<lparr>s_i := m, s_buf := buf'\<rparr>)
                   = Inr (False, s1\<lparr>s_i := m, s_buf := buf'\<rparr>)
              \<and> transfer_block path (s1\<lparr>s_i := m, s_buf := buf'\<rparr>) = Inr s')"
    by blast
  from good_entry[OF g b ne] obtain c pre where e: "0 \<le> s_i s" "s_i s1 = s_i s"
    "s_curline s1 = Some c" "s_route s1 = BeginAt (hd path) # pre" "rides (map kind_of pre)"
    and anchor: "(s_i s = 0 \<and> (\<exists>ls. station_lines (hd path) = Inr ls \<and> py_get ls 0 = Inr c))
         \<or> (1 \<le> s_i s \<and> (\<exists>ls. station_lines (path ! nat (s_i s - 1)) = Inr ls \<and> 1 < length ls))"
    by blast
  from w e have w': "inner_while path (Some c) (s_i s) (s_buf s1) = (r, m, buf')" by simp
  from inner_while_spec[OF w'] have iw: "s_i s \<le> m"
    "\<forall>j. s_i s \<le> j \<and> j < m \<longrightarrow> cond path (Some c) j = Inr True"
    "case r of None \<Rightarrow> cond path (Some c) m = Inr False | Some e \<Rightarrow> cond path (Some c) m = Inl e"
    by auto
  note lastr = good_last_not_GoTo[OF e(4) e(5)]
  from cs show ?thesis
  proof (elim disjE conjE)
    assume r: "r = None" and nb: "\<not> brk"
      and t: "transfer_block path (s1\<lparr>s_i := m - 1, s_buf := buf'\<rparr>) = Inr s'"
    from r iw(3) have cF: "cond path (Some c) m = Inr False" by simp
    from cond_Inr_bound[OF cF] have bound: "m + 1 < int (length path)" by simp
    from transfer_block_spec[OF t] obtain p ls where tp: "py_get path (m - 1) = Inr p"
      "station_lines p = Inr ls"
      and single: "\<not> 1 < length ls \<longrightarrow> s' = s1\<lparr>s_i := m - 1, s_buf := buf'\<rparr>"
      and multi: "1 < length ls \<longrightarrow> (\<exists>c' nc. py_get ls 0 = Inr c' \<and> s_curline s' = Some c'
             \<and> s_i s' = m
             \<and> s_route s' = s_route s1 @ [GoTo p (s_begin s1) c' buf' None, Transfer p nc c'])"
      by auto
    have "good path s' \<or> stuck path s' \<or> doomed path s'"
    proof (cases "m = 0")
      case True
      with iw(1) e(1) have i0: "s_i s = 0" by simp
      with anchor obtain ls0 where a0: "station_lines (hd path) = Inr ls0" "py_get ls0 0 = Inr c"
        by auto
      have p0: "py_get path 0 = Inr (hd path)" using ne by (cases path) (auto simp: py_get_def)
      from a0(2) have "c \<in> set ls0" by (rule py_get_0_member)
      with cond_False_any[OF _ p0 a0(1)] cF True have allF: "\<And>c'. cond path c' 0 = Inr False"
        by simp
      from single multi True have "s_i s' = - 1 \<or> s_i s' = 0" by (cases "1 < length ls") auto
      with allF bound True show ?thesis by (auto simp: doomed_def)
    next
      case False
      with iw(1) e(1) have m1: "1 \<le> m" by simp
      from py_get_nth[OF tp(1)] m1 have pn: "p = path ! nat (m - 1)" by simp
      show ?thesis
      proof (cases "1 < length ls")
        case True
        with multi obtain c' nc where "py_get ls 0 = Inr c'" "s_curline s' = Some c'" "s_i s' = m"
          "s_route s' = s_route s1 @ [GoTo p (s_begin s1) c' buf' None, Transfer p nc c']"
          by auto
        with e(4) rides_append[OF e(5)] m1 bound tp(2) pn True have "good path s'"
          by (auto simp: good_def)
        then show ?thesis by simp
      next
        case False
        with single have s': "s' = s1\<lparr>s_i := m - 1, s_buf := buf'\<rparr>" by simp
        have lt: "s_i s \<le> m - 1"
        proof (rule ccontr)
          assume "\<not> s_i s \<le> m - 1"
          with iw(1) have "m = s_i s" by simp
          with m1 anchor tp(2) pn False show False by auto
        qed
        with iw(2) have cT: "cond path (Some c) (m - 1) = Inr True" by simp
        have z: "m - 1 = 0 \<longrightarrow> py_get ls 0 = Inr c"
        proof
          assume z: "m - 1 = 0"
          with lt e(1) have "s_i s = 0" by simp
          with anchor obtain ls0 where "station_lines (hd path) = Inr ls0" "py_get ls0 0 = Inr c"
            by auto
          moreover from z pn ne have "p = hd path" by (cases path) auto
          ultimately show "py_get ls 0 = Inr c" using tp(2) by simp
        qed
        have "stuck path s'"
          unfolding stuck_def using s' e(3) cT cF tp False z m1 by auto
        then show ?thesis by simp
      qed
    qed
    with nb show ?thesis by simp
  next
    assume bk: "brk" and h: "handler lst path (s1\<lparr>s_i := m, s_buf := buf'\<rparr>) = Inr (True, s')"
    from handler_spec[OF h] lastr obtain p l r' where hm: "m = int (length path) - 1"
      and hp: "py_get path m = Inr p"
      and hr: "s_route s' = r' @ [GoTo p (s_begin s1) l (buf' @ [p]) None, ArriveAt p]"
      and hc: "(\<exists>a f t. last (s_route s1) = Transfer a f t
                  \<and> r' = (s_route s1)[length (s_route s1) - 1 := Transfer a f l])
               \<or> r' = s_route s1"
      by auto
    from hm hp py_get_last[OF ne] have pl: "p = last path" by simp
    from patch_last[OF e(4) e(5) hc] obtain pre' where
      "r' = BeginAt (hd path) # pre'" "rides (map kind_of pre')"
      by blast
    with hr pl have "finished path (s_route s')" by (auto simp: finished_def)
    with bk show ?thesis by simp
  next
    assume r: "r = Some IndexError" and nb: "\<not> brk"
      and h: "handler lst path (s1\<lparr>s_i := m, s_buf := buf'\<rparr>) = Inr (False, s1\<lparr>s_i := m, s_buf := buf'\<rparr>)"
      and t: "transfer_block path (s1\<lparr>s_i := m, s_buf := buf'\<rparr>) = Inr s'"
    from r iw(3) have c: "cond path (Some c) m = Inl IndexError" by simp
    from fallthrough_last_GoTo[OF c _ h t] lastr have False by (auto simp: is_GoTo_kind)
    then show ?thesis ..
  qed
qed

lemma route_loop_finished:
  assumes run: "route_loop lst path init_state = Some (Inr route)" and ne: "path \<noteq> []"
  shows "finished path route"
proof -
  let ?I = "\<lambda>s. good path s \<or> stuck path s \<or> doomed path s"
  let ?Q = "\<lambda>res :: error + action list. \<forall>r. res = Inr r \<longrightarrow> finished path r"
  have "?Q (Inr route)"
  proof (rule route_loop_rule[OF run, where I = ?I and Q = ?Q])
    show "?I init_state" by (simp add: good_def init_state_def)
  next
    fix s s' assume "?I s" and lb: "loop_body lst path s = Inr (False, s')"
    then show "?I s'"
      using good_step[OF _ lb ne] stuck_step[OF _ lb] doomed_step[OF _ lb] by blast
  next
    fix s s' assume "?I s" and lb: "loop_body lst path s = Inr (True, s')"
    then show "?Q (Inr (s_route s'))"
      using good_step[OF _ lb ne] stuck_step[OF _ lb] doomed_step[OF _ lb] by blast
  next
    fix s e show "?Q (Inl e)" by simp
  next
    fix s assume i: "?I s" and x: "\<not> s_i s < int (length path)"
    from i have "s_i s < int (length path)"
    proof (elim disjE)
      assume "good path s" with ne show ?thesis by (auto simp: good_def)
    next
      assume "stuck path s"
      then obtain c where "cond path (Some c) (s_i s) = Inr True" by (auto simp: stuck_def)
      from cond_Inr_bound[OF this] show ?thesis by simp
    next
      assume "doomed path s" then show ?thesis by (auto simp: doomed_def)
    qed
    with x show "?Q (Inr (s_route s))" by simp
  qed
  then show ?thesis by simp
qed

lemma map_kind_update:
  "k < length r \<Longrightarrow> kind_of a = kind_of (r ! k) \<Longrightarrow> map kind_of (r[k := a]) = map kind_of r"
  by (metis list_update_id map_update nth_map)

lemma post_step_kind:
  assumes "post_step lst k r = Inr r'" "k < length r"
  shows "map kind_of r' = map kind_of r
       \<and> (kind_of (r ! k) \<in> {KBeginAt, KArriveAt} \<longrightarrow> r' = r)"
  using assms
  by (auto simp: post_step_def map_kind_update split: action.splits sum.splits)

lemma post_steps_kind:
  "post_steps lst ks r = Inr r' \<Longrightarrow> \<forall>k\<in>set ks. k < length r \<Longrightarrow>
     map kind_of r' = map kind_of r
     \<and> (\<forall>j<length r. kind_of (r ! j) \<in> {KBeginAt, KArriveAt} \<longrightarrow> r' ! j = r ! j)"
proof (induction ks arbitrary: r)
  case Nil
  then show ?case by simp
next
  case (Cons k ks)
  from Cons.prems obtain r1 where s1: "post_step lst k r = Inr r1"
    and s2: "post_steps lst ks r1 = Inr r'"
    by (auto split: sum.splits)
  from Cons.prems have kl: "k < length r" by simp
  note len = post_step_length[OF s1]
  note k1 = post_step_kind[OF s1 kl]
  from Cons.prems len have "\<forall>k\<in>set ks. k < length r1" by simp
  note ih = Cons.IH[OF s2 this]
  have "r' ! j = r ! j" if j: "j < length r" "kind_of (r ! j) \<in> {KBeginAt, KArriveAt}" for j
  proof -
    have a: "r1 ! j = r ! j"
    proof (cases "j = k")
      case True with k1 j show ?thesis by auto
    next
      case False with post_step_other[OF s1] show ?thesis by simp
    qed
    with ih j len show ?thesis by auto
  qed
  with ih k1 show ?case by simp
qed

lemma post_process_kind:
  assumes "post_process lst r = Inr r'"
  shows "map kind_of r' = map kind_of r
     \<and> (\<forall>j<length r. kind_of (r ! j) \<in> {KBeginAt, KArriveAt} \<longrightarrow> r' ! j = r ! j)"
  using assms post_steps_kind[of lst "[0..<length r]" r r'] by (simp add: post_process_def)

lemma get_route_finished:
  assumes "get_route_from_path lst path = Some (Inr route)" "path \<noteq> []"
  shows "map kind_of route \<noteq> [] \<and> legs (tl (map kind_of route))
       \<and> route ! 0 = BeginAt (hd path) \<and> route ! (length route - 1) = ArriveAt (last path)"
proof -
  from assms(1) obtain r0 where run: "route_loop lst path init_state = Some (Inr r0)"
    and post: "post_process lst r0 = Inr route"
    by (auto simp: get_route_from_path_def split: option.splits sum.splits)
  from route_loop_finished[OF run assms(2)] obtain pre t f l sts where
    r0: "r0 = BeginAt (hd path) # pre @ [GoTo t f l sts None, ArriveAt (last path)]"
    and rd: "rides (map kind_of pre)"
    by (auto simp: finished_def)
  note pk = post_process_kind[OF post]
  from pk have len: "length route = length r0" by (metis length_map)
  from r0 have k0: "map kind_of r0 = KBeginAt # (map kind_of pre @ [KGoTo, KArriveAt])" by simp
  from r0 have "r0 ! 0 = BeginAt (hd path)" by simp
  with pk r0 have first: "route ! 0 = BeginAt (hd path)" by simp
  from r0 have "r0 ! (length r0 - 1) = ArriveAt (last path)"
    by (simp add: nth_append)
  moreover have "length r0 - 1 < length r0" using r0 by simp
  ultimately have lastr: "route ! (length r0 - 1) = ArriveAt (last path)" using pk by simp
  from pk k0 rides_legs[OF rd] first lastr len show ?thesis by simp
qed

lemma legs_no_double:
  "legs ks \<Longrightarrow> Suc k < length ks \<Longrightarrow> \<not> (ks ! k = KTransfer \<and> ks ! Suc k = KTransfer)"
proof (induction ks arbitrary: k rule: legs.induct)
  case (2 ks)
  show ?case
  proof (cases k)
    case 0 then show ?thesis by simp
  next
    case (Suc k1)
    show ?thesis
    proof (cases k1)
      case 0
      with Suc 2 show ?thesis by (cases ks rule: legs.cases) auto
    next
      case (Suc k2)
      with \<open>k = Suc k1\<close> 2 show ?thesis by auto
    qed
  qed
qed auto

lemma legs_last: "legs ks \<Longrightarrow> ks \<noteq> [] \<and> last ks = KArriveAt \<and> hd ks = KGoTo"
  by (induction ks rule: legs.induct) auto

lemma is_Transfer_kind: "is_Transfer a = (kind_of a = KTransfer)"
  by (cases a) auto

lemma single_station_loop_body: "\<exists>e. loop_body lst [x] init_state = Inl e"
proof (cases "station_lines x")
  case (Inl e)
  then show ?thesis
    by (simp add: loop_body_def begin_block_def init_state_def py_get_def)
next
  case (Inr ls)
  show ?thesis
  proof (cases ls)
    case Nil
    with Inr show ?thesis
      by (simp add: loop_body_def begin_block_def init_state_def py_get_def)
  next
    case (Cons c cs)
    with Inr show ?thesis
      by (simp add: loop_body_def begin_block_def init_state_def py_get_def
            inner_while.simps cond_def handler_def common_line_between_stations_def)
  qed
qed

lemma single_station_no_route: "get_route_from_path lst [x] \<noteq> Some (Inr route)"
proof -
  from single_station_loop_body obtain e where "loop_body lst [x] init_state = Inl e" by blast
  then have "route_loop lst [x] init_state = Some (Inl e)"
    by (subst route_loop.simps) (simp add: init_state_def)
  then show ?thesis by (simp add: get_route_from_path_def)
qed

text \<open>
  C4 (as stated): for every path of \<open>n \<ge> 1\<close> stations \<open>get_route_from_path\<close> returns an
  itinerary that begins with \<open>BeginAt(path[0])\<close> and ends with \<open>ArriveAt(path[n-1])\<close>.  For
  the one-station path \<open>[hasiph]\<close> the guard of \<open>common_line_between_stations\<close> against
  an empty list raises \<open>ValueError\<close>, and no itinerary is returned.
\<close>

theorem C4_single_station_counterexample:
  "get_route_from_path decl_order [''hasiph''] = Some (Inl ValueError)"
  by code_simp

text \<open>
  C4 (amended): for every path of \<open>n \<ge> 1\<close> stations on which \<open>get_route_from_path\<close>
  returns a route, the path has at least two stations, the first action of the route is
  \<open>BeginAt(path[0])\<close> and the last is \<open>ArriveAt(path[n-1])\<close>.
\<close>

theorem C4_begin_and_arrive:
  assumes "get_route_from_path lst path = Some (Inr route)" "path \<noteq> []"
  shows "2 \<le> length path \<and> route \<noteq> [] \<and> route ! 0 = BeginAt (path ! 0)
       \<and> route ! (length route - 1) = ArriveAt (path ! (length path - 1))"
proof -
  have "2 \<le> length path"
  proof (rule ccontr)
    assume "\<not> 2 \<le> length path"
    with assms(2) obtain x where "path = [x]"
      by (cases path) (auto simp: not_le less_Suc_eq_le)
    with assms(1) single_station_no_route show False by blast
  qed
  with get_route_finished[OF assms] assms(2) show ?thesis
    by (auto simp: hd_conv_nth last_conv_nth)
qed

theorem C4_begin_and_arrive_witness:
  "get_route_from_path decl_order [''airport'', ''venice'', ''waisharkil'', ''korihasiph'']
       = Some (Inr [BeginAt ''airport'',
                    GoTo ''venice'' ''airport'' APL [''airport'', ''venice''] (Some CSL),
                    Transfer ''venice'' APL CSL,
                    GoTo ''korihasiph'' ''venice'' CSL
                      [''venice'', ''waisharkil'', ''waisharkil'', ''korihasiph''] None,
                    ArriveAt ''korihasiph''])
   \<and> [''airport'', ''venice'', ''waisharkil'', ''korihasiph''] \<noteq> []
   \<and> [BeginAt ''airport'',
        GoTo ''venice'' ''airport'' APL [''airport'', ''venice''] (Some CSL),
        Transfer ''venice'' APL CSL,
        GoTo ''korihasiph'' ''venice'' CSL
          [''venice'', ''waisharkil'', ''waisharkil'', ''korihasiph''] None,
        ArriveAt ''korihasiph''] ! 0 = BeginAt ''airport''
   \<and> [BeginAt ''airport'',
        GoTo ''venice'' ''airport'' APL [''airport'', ''venice''] (Some CSL),
        Transfer ''venice'' APL CSL,
        GoTo ''korihasiph'' ''venice'' CSL
          [''venice'', ''waisharkil'', ''waisharkil'', ''korihasiph''] None,
        ArriveAt ''korihasiph''] ! 4 = ArriveAt ''korihasiph''"
proof -
  have r: "get_route_from_path decl_order [''airport'', ''venice'', ''waisharkil'', ''korihasiph'']
       = Some (Inr [BeginAt ''airport'',
                    GoTo ''venice'' ''airport'' APL [''airport'', ''venice''] (Some CSL),
                    Transfer ''venice'' APL CSL,
                    GoTo ''korihasiph'' ''venice'' CSL
                      [''venice'', ''waisharkil'', ''waisharkil'', ''korihasiph''] None,
                    ArriveAt ''korihasiph''])"
    by code_simp
  have ne: "[''airport'', ''venice'', ''waisharkil'', ''korihasiph''] \<noteq> []" by simp
  from C4_begin_and_arrive[OF r ne] r show ?thesis by simp
qed

text \<open>
  C3 (as stated): on every path on which \<open>get_route_from_path\<close> returns, the returned list
  is \<open>BeginAt, (GoTo, Transfer)*, GoTo, ArriveAt\<close>.  On the empty path the function returns
  the empty list, which is no such sequence.
\<close>

theorem C3_empty_route_counterexample:
  "get_route_from_path decl_order [] = Some (Inr []) \<and> \<not> itinerary []"
  by code_simp

text \<open>
  C3 (amended): for every non-empty path on which \<open>get_route_from_path\<close> returns a route,
  the route is \<open>BeginAt, (GoTo, Transfer)*, GoTo, ArriveAt\<close>; neither its first nor its last
  action is a \<open>Transfer\<close>, and no two consecutive actions are both \<open>Transfer\<close>.
\<close>

theorem C3_route_alternates:
  assumes "get_route_from_path lst path = Some (Inr route)" "path \<noteq> []"
  shows "itinerary route
       \<and> \<not> is_Transfer (route ! 0) \<and> \<not> is_Transfer (route ! (length route - 1))
       \<and> (\<forall>k. Suc k < length route \<longrightarrow> \<not> (is_Transfer (route ! k) \<and> is_Transfer (route ! Suc k)))"
proof -
  from get_route_finished[OF assms] have ne: "route \<noteq> []"
    and lg: "legs (tl (map kind_of route))"
    and first: "route ! 0 = BeginAt (hd path)"
    and lst: "route ! (length route - 1) = ArriveAt (last path)"
    by auto
  from ne first have hdk: "hd (map kind_of route) = KBeginAt"
    by (cases route) auto
  with ne lg have it: "itinerary route"
    by (cases "map kind_of route") (auto simp: itinerary_def)
  have nd: "\<not> (is_Transfer (route ! k) \<and> is_Transfer (route ! Suc k))" if k: "Suc k < length route" for k
  proof (cases k)
    case 0
    with first show ?thesis by simp
  next
    case (Suc k1)
    with k have "Suc k1 < length (tl (map kind_of route))" by simp
    from legs_no_double[OF lg this] Suc k show ?thesis
      by (simp add: is_Transfer_kind nth_tl)
  qed
  from it first lst nd show ?thesis by simp
qed

theorem C3_route_alternates_witness:
  "get_route_from_path decl_order [''airport'', ''venice'', ''waisharkil'', ''korihasiph'']
       = Some (Inr [BeginAt ''airport'',
                    GoTo ''venice'' ''airport'' APL [''airport'', ''venice''] (Some CSL),
                    Transfer ''venice'' APL CSL,
                    GoTo ''korihasiph'' ''venice'' CSL
                      [''venice'', ''waisharkil'', ''waisharkil'', ''korihasiph''] None,
                    ArriveAt ''korihasiph''])
   \<and> [''airport'', ''venice'', ''waisharkil'', ''korihasiph''] \<noteq> []
   \<and> itinerary [BeginAt ''airport'',
                  GoTo ''venice'' ''airport'' APL [''airport'', ''venice''] (Some CSL),
                  Transfer ''venice'' APL CSL,
                  GoTo ''korihasiph'' ''venice'' CSL
                    [''venice'', ''waisharkil'', ''waisharkil'', ''korihasiph''] None,
                  ArriveAt ''korihasiph'']"
proof -
  have r: "get_route_from_path decl_order [''airport'', ''venice'', ''waisharkil'', ''korihasiph'']
       = Some (Inr [BeginAt ''airport'',
                    GoTo ''venice'' ''airport'' APL [''airport'', ''venice''] (Some CSL),
                    Transfer ''venice'' APL CSL,
                    GoTo ''korihasiph'' ''venice'' CSL
                      [''venice'', ''waisharkil'', ''waisharkil'', ''korihasiph''] None,
                    ArriveAt ''korihasiph''])"
    by code_simp
  have ne: "[''airport'', ''venice'', ''waisharkil'', ''korihasiph''] \<noteq> []" by simp
  from C3_route_alternates[OF r ne] r show ?thesis by simp
qed

section \<open>Breadth-first search returns the distance\<close>

lemma dist_le: "(s, u) \<in> edges g ^^ k \<Longrightarrow> dist g s u \<le> k"
  unfolding dist_def by (rule Least_le)

lemma dist_walk: "(s, u) \<in> (edges g)\<^sup>* \<Longrightarrow> (s, u) \<in> edges g ^^ dist g s u"
  unfolding dist_def by (meson LeastI_ex rtrancl_imp_relpow)

lemma dist_triangle:
  assumes "(s, v) \<in> (edges g)\<^sup>*" "(v, x) \<in> edges g ^^ j"
  shows "dist g s x \<le> dist g s v + j"
proof -
  from dist_walk[OF assms(1)] assms(2) have "(s, x) \<in> edges g ^^ (dist g s v + j)"
    by (meson relpow_trans)
  then show ?thesis by (rule dist_le)
qed

lemma reach_relpow: "(s, v) \<in> (edges g)\<^sup>* \<Longrightarrow> (v, x) \<in> edges g ^^ j \<Longrightarrow> (s, x) \<in> (edges g)\<^sup>*"
  by (meson relpow_imp_rtrancl rtrancl_trans)

lemma frontier_from_visited:
  assumes inv: "bfs_inv g s e V Q"
  shows "v \<in> V \<Longrightarrow> w \<notin> V \<Longrightarrow> (v, w) \<in> edges g ^^ j \<Longrightarrow> dist g s v + j = dist g s w
     \<Longrightarrow> \<exists>u du. (u, du) \<in> set Q \<and> du \<le> int (dist g s w)"
proof (induction j arbitrary: v)
  case 0
  then show ?case by auto
next
  case (Suc j)
  from Suc.prems(3) obtain x where vx: "(v, x) \<in> edges g" and xw: "(x, w) \<in> edges g ^^ j"
    by (meson relpow_Suc_D2)
  from inv Suc.prems(1) have rv: "(s, v) \<in> (edges g)\<^sup>*"
    and nb: "x \<in> V \<or> (\<exists>d'. (x, d') \<in> set Q \<and> d' \<le> int (dist g s v) + 1)"
    using vx by (auto simp: bfs_inv_def)
  have rx: "(s, x) \<in> (edges g)\<^sup>*" using rv vx by auto
  have a: "dist g s x \<le> dist g s v + 1" using dist_triangle[OF rv, of x 1] vx by simp
  have b: "dist g s w \<le> dist g s x + j" using dist_triangle[OF rx xw] .
  from a b Suc.prems(4) have dx: "dist g s x = dist g s v + 1" "dist g s x + j = dist g s w"
    by auto
  from nb show ?case
  proof
    assume "x \<in> V"
    from Suc.IH[OF this Suc.prems(2) xw dx(2)] show ?thesis .
  next
    assume "\<exists>d'. (x, d') \<in> set Q \<and> d' \<le> int (dist g s v) + 1"
    then obtain d' where "(x, d') \<in> set Q" "d' \<le> int (dist g s v) + 1" by blast
    with dx show ?thesis by (intro exI[of _ x] exI[of _ d']) auto
  qed
qed

lemma frontier:
  assumes inv: "bfs_inv g s e V Q" and r: "(s, w) \<in> (edges g)\<^sup>*" and w: "w \<notin> V"
  shows "\<exists>u du. (u, du) \<in> set Q \<and> du \<le> int (dist g s w)"
proof (cases "s \<in> V")
  case True
  have "dist g s s = 0" using dist_le[where k = 0 and s = s and u = s and g = g] by simp
  with frontier_from_visited[OF inv True w dist_walk[OF r]] show ?thesis by simp
next
  case False
  with inv have "(s, 0) \<in> set Q" by (auto simp: bfs_inv_def)
  then show ?thesis by (intro exI[of _ s] exI[of _ 0]) auto
qed

lemma head_optimal:
  assumes inv: "bfs_inv g s e V ((v, d) # Q)" and v: "v \<notin> V"
  shows "d = int (dist g s v) \<and> (s, v) \<in> (edges g)\<^sup>*"
proof -
  from inv obtain k where k: "d = int k" "(s, v) \<in> edges g ^^ k" by (auto simp: bfs_inv_def)
  then have r: "(s, v) \<in> (edges g)\<^sup>*" by (meson relpow_imp_rtrancl)
  from dist_le[OF k(2)] k(1) have le: "int (dist g s v) \<le> d" by simp
  from frontier[OF inv r v] obtain u du where u: "(u, du) \<in> set ((v, d) # Q)" "du \<le> int (dist g s v)"
    by blast
  from inv have "sorted (map snd ((v, d) # Q))" by (simp add: bfs_inv_def)
  with u(1) have "d \<le> du" by auto
  with u(2) le r show ?thesis by simp
qed

lemma bfs_inv_skip:
  assumes inv: "bfs_inv g s e V ((v, d) # Q)" and v: "v \<in> V"
  shows "bfs_inv g s e V Q"
proof -
  from inv have a: "e \<notin> V" "s \<in> V \<or> (s, 0) \<in> set ((v, d) # Q)"
    and q: "\<forall>(u, d) \<in> set ((v, d) # Q). known g u \<and> (\<exists>k. d = int k \<and> (s, u) \<in> edges g ^^ k)"
    and vis: "\<forall>v' \<in> V. (s, v') \<in> (edges g)\<^sup>*
            \<and> (\<forall>x. (v', x) \<in> edges g \<longrightarrow>
                  x \<in> V \<or> (\<exists>d'. (x, d') \<in> set ((v, d) # Q) \<and> d' \<le> int (dist g s v') + 1))"
    and so: "sorted (map snd ((v, d) # Q))"
    and bd: "\<forall>(u, du) \<in> set ((v, d) # Q). du \<le> d + 1"
    by (auto simp: bfs_inv_def)
  have 1: "s \<in> V \<or> (s, 0) \<in> set Q" using a(2) v by auto
  have 2: "\<forall>(u, d) \<in> set Q. known g u \<and> (\<exists>k. d = int k \<and> (s, u) \<in> edges g ^^ k)"
    using q by auto
  have 3: "\<forall>v' \<in> V. (s, v') \<in> (edges g)\<^sup>*
            \<and> (\<forall>x. (v', x) \<in> edges g \<longrightarrow>
                  x \<in> V \<or> (\<exists>d'. (x, d') \<in> set Q \<and> d' \<le> int (dist g s v') + 1))"
    using vis v by (metis prod.inject set_ConsD)
  have 4: "sorted (map snd Q)" using so by simp
  have 5: "\<forall>(u, du) \<in> set Q. du \<le> snd (hd Q) + 1"
  proof (cases Q)
    case Nil then show ?thesis by simp
  next
    case (Cons q Q')
    with so have "d \<le> snd q" by simp
    with bd Cons show ?thesis by fastforce
  qed
  from a(1) 1 2 3 4 5 show ?thesis unfolding bfs_inv_def by blast
qed

lemma bfs_inv_expand:
  assumes inv: "bfs_inv g s e V ((v, d) # Q)" and v: "v \<notin> V" and ve: "v \<noteq> e"
    and nb: "map_of g v = Some nbrs" and cl: "closed g"
  shows "bfs_inv g s e (insert v V)
           (Q @ map (\<lambda>n. (n, d + 1)) (filter (\<lambda>n. n \<notin> insert v V) nbrs))"
    (is "bfs_inv g s e ?V ?Q")
proof -
  from inv have a: "e \<notin> V" "s \<in> V \<or> (s, 0) \<in> set ((v, d) # Q)"
    and q: "\<forall>(u, d) \<in> set ((v, d) # Q). known g u \<and> (\<exists>k. d = int k \<and> (s, u) \<in> edges g ^^ k)"
    and vis: "\<forall>v' \<in> V. (s, v') \<in> (edges g)\<^sup>*
            \<and> (\<forall>x. (v', x) \<in> edges g \<longrightarrow>
                  x \<in> V \<or> (\<exists>d'. (x, d') \<in> set ((v, d) # Q) \<and> d' \<le> int (dist g s v') + 1))"
    and so: "sorted (map snd ((v, d) # Q))"
    and bd: "\<forall>(u, du) \<in> set ((v, d) # Q). du \<le> d + 1"
    by (auto simp: bfs_inv_def)
  from head_optimal[OF inv v] have dv: "d = int (dist g s v)" and rv: "(s, v) \<in> (edges g)\<^sup>*"
    by auto
  have edge: "(v, n) \<in> edges g" if "n \<in> set nbrs" for n
    using that nb by (auto simp: edges_def)
  have edge': "n \<in> set nbrs" if "(v, n) \<in> edges g" for n
    using that nb by (auto simp: edges_def)
  have 0: "e \<notin> ?V" using a(1) ve by simp
  have 1: "s \<in> ?V \<or> (s, 0) \<in> set ?Q" using a(2) by auto
  have 2: "\<forall>(u, d) \<in> set ?Q. known g u \<and> (\<exists>k. d = int k \<and> (s, u) \<in> edges g ^^ k)"
  proof -
    have "known g n \<and> (\<exists>k. d + 1 = int k \<and> (s, n) \<in> edges g ^^ k)" if n: "n \<in> set nbrs" for n
    proof -
      from cl edge[OF n] have "known g n" by (auto simp: closed_def)
      moreover from dist_walk[OF rv] edge[OF n] have "(s, n) \<in> edges g ^^ Suc (dist g s v)"
        by auto
      ultimately show ?thesis using dv by (intro conjI exI[of _ "Suc (dist g s v)"]) auto
    qed
    with q show ?thesis by auto
  qed
  have 3: "\<forall>v' \<in> ?V. (s, v') \<in> (edges g)\<^sup>*
            \<and> (\<forall>x. (v', x) \<in> edges g \<longrightarrow>
                  x \<in> ?V \<or> (\<exists>d'. (x, d') \<in> set ?Q \<and> d' \<le> int (dist g s v') + 1))"
  proof (intro ballI conjI allI impI)
    fix v' assume "v' \<in> ?V"
    then show "(s, v') \<in> (edges g)\<^sup>*" using rv vis by auto
  next
    fix v' x assume v': "v' \<in> ?V" and e: "(v', x) \<in> edges g"
    show "x \<in> ?V \<or> (\<exists>d'. (x, d') \<in> set ?Q \<and> d' \<le> int (dist g s v') + 1)"
    proof (cases "v' = v")
      case True
      with e have "x \<in> set nbrs" using edge' by simp
      then have "x \<in> ?V \<or> (x, d + 1) \<in> set ?Q" by auto
      with dv True show ?thesis by auto
    next
      case False
      with v' have "v' \<in> V" by simp
      with vis e have "x \<in> V \<or> (\<exists>d'. (x, d') \<in> set ((v, d) # Q) \<and> d' \<le> int (dist g s v') + 1)"
        by blast
      then show ?thesis by auto
    qed
  qed
  have 4: "sorted (map snd ?Q)"
  proof -
    have "map snd ?Q = map snd Q @ map (\<lambda>n. d + 1) (filter (\<lambda>n. n \<notin> ?V) nbrs)"
      by (simp add: comp_def)
    moreover have "sorted (map (\<lambda>n. d + 1) (filter (\<lambda>n. n \<notin> ?V) nbrs))"
      by (induction nbrs) auto
    moreover have "\<forall>x \<in> set (map snd Q). x \<le> d + 1" using bd by auto
    ultimately show ?thesis using so by (auto simp: sorted_append comp_def)
  qed
  have 5: "\<forall>(u, du) \<in> set ?Q. du \<le> snd (hd ?Q) + 1"
  proof (cases Q)
    case Nil
    then show ?thesis by (cases "filter (\<lambda>n. n \<notin> ?V) nbrs") auto
  next
    case (Cons q Q')
    with so have "d \<le> snd q" by simp
    moreover from Cons have "hd ?Q = q" by simp
    ultimately show ?thesis using bd by fastforce
  qed
  from 0 1 2 3 4 5 show ?thesis unfolding bfs_inv_def by blast
qed

lemma shortest_path_loop_correct:
  "closed g \<Longrightarrow> bfs_inv g s e V Q \<Longrightarrow>
     shortest_path_loop g e V Q
       = Inr (if (s, e) \<in> (edges g)\<^sup>* then Some (int (dist g s e)) else None)"
proof (induction g e V Q rule: shortest_path_loop.induct)
  case (1 g e V)
  note inv = "1.prems"(2)
  have "(s, e) \<notin> (edges g)\<^sup>*"
  proof
    assume r: "(s, e) \<in> (edges g)\<^sup>*"
    from inv have "e \<notin> V" by (simp add: bfs_inv_def)
    from frontier[OF inv r this] show False by simp
  qed
  then show ?case by simp
next
  case (2 g e V v d Q)
  note cl = "2.prems"(1) and inv = "2.prems"(2)
  show ?case
  proof (cases "v = e")
    case True
    from inv have "e \<notin> V" by (simp add: bfs_inv_def)
    with head_optimal[OF inv] True show ?thesis by simp
  next
    case ne: False
    show ?thesis
    proof (cases "v \<in> V")
      case True
      from "2.IH"(2)[OF ne _ cl bfs_inv_skip[OF inv True]] True ne show ?thesis by simp
    next
      case False
      from inv obtain nbrs where nb: "map_of g v = Some nbrs" by (auto simp: bfs_inv_def known_def)
      from "2.IH"(1)[OF ne False nb cl bfs_inv_expand[OF inv False ne nb cl]]
      show ?thesis using ne False nb by simp
    qed
  qed
qed

lemma shortest_path_correct:
  assumes "closed g"
  shows "shortest_path g s e
           = Inr (if connected g s e then Some (int (dist g s e)) else None)"
proof (cases "map_of g s = None \<or> map_of g e = None")
  case True
  then show ?thesis by (auto simp: shortest_path_def connected_def known_def)
next
  case False
  then have "bfs_inv g s e {} [(s, 0)]"
    by (auto simp: bfs_inv_def known_def intro: exI[of _ "0::nat"])
  from shortest_path_loop_correct[OF assms this] False show ?thesis
    by (simp add: shortest_path_def connected_def known_def)
qed

lemma map_of_add_station:
  "map_of (add_station g s) x = (if x = s \<and> map_of g s = None then Some [] else map_of g x)"
  by (auto simp: add_station_def map_add_def split: option.splits)

lemma map_of_append_neighbor:
  "map_of (append_neighbor g k v) x
     = (if x = k then map_option (\<lambda>vs. vs @ [v]) (map_of g x) else map_of g x)"
  unfolding append_neighbor_def by (induction g) auto

lemma edges_add_station: "edges (add_station g s) = edges g"
  by (auto simp: edges_def map_of_add_station split: if_splits)

lemma edges_append_neighbor:
  "known g k \<Longrightarrow> edges (append_neighbor g k v) = insert (k, v) (edges g)"
  by (auto simp: known_def edges_def map_of_append_neighbor split: if_splits)

lemma known_add_station: "known (add_station g s) x \<longleftrightarrow> x = s \<or> known g x"
  by (auto simp: known_def map_of_add_station)

lemma known_append_neighbor: "known (append_neighbor g k v) x \<longleftrightarrow> known g x"
  by (auto simp: known_def map_of_append_neighbor)

lemma known_add_connection:
  "known (add_connection g a b) x \<longleftrightarrow> x = a \<or> x = b \<or> known g x"
  unfolding add_connection_def known_append_neighbor known_add_station by auto

lemma edges_add_connection:
  "edges (add_connection g a b) = insert (b, a) (insert (a, b) (edges g))"
proof -
  let ?g1 = "add_station (add_station g a) b"
  have a: "known ?g1 a" by (simp add: known_add_station)
  let ?g2 = "append_neighbor ?g1 a b"
  have b: "known ?g2 b" by (simp add: known_append_neighbor known_add_station)
  have "edges (add_connection g a b) = insert (b, a) (edges ?g2)"
    unfolding add_connection_def by (rule edges_append_neighbor[OF b])
  also have "edges ?g2 = insert (a, b) (edges ?g1)" by (rule edges_append_neighbor[OF a])
  also have "edges ?g1 = edges g" by (simp add: edges_add_station)
  finally show ?thesis .
qed

lemma network_closed: "network g \<Longrightarrow> closed g"
proof (induction rule: network.induct)
  case empty
  then show ?case by (simp add: closed_def edges_def)
next
  case (station g s)
  then show ?case by (auto simp: closed_def edges_add_station known_add_station)
next
  case (connection g a b)
  then show ?case by (auto simp: closed_def edges_add_connection known_add_connection)
qed

lemma network_sym: "network g \<Longrightarrow> sym (edges g)"
proof (induction rule: network.induct)
  case empty
  then show ?case by (simp add: sym_def edges_def)
next
  case (station g s)
  then show ?case by (simp add: edges_add_station)
next
  case (connection g a b)
  then show ?case by (auto simp: sym_def edges_add_connection)
qed

lemma network_add_connections: "network g \<Longrightarrow> network (add_connections g conns)"
  by (induction g conns rule: add_connections.induct) (auto intro: network.connection)

lemma network_metro: "network metro"
  unfolding metro_def STATIONS_def
  by (simp add: network_add_connections network.empty del: add_connections.simps)

lemma sym_relpow: "sym E \<Longrightarrow> (a, b) \<in> E ^^ k \<Longrightarrow> (b, a) \<in> E ^^ k"
proof (induction k arbitrary: b)
  case 0
  then show ?case by simp
next
  case (Suc k)
  from Suc.prems(2) obtain c where c: "(a, c) \<in> E ^^ k" "(c, b) \<in> E" by auto
  from Suc.IH[OF Suc.prems(1) c(1)] have "(c, a) \<in> E ^^ k" .
  moreover from c(2) Suc.prems(1) have "(b, c) \<in> E" by (simp add: sym_def)
  ultimately show ?case by (meson relpow_Suc_I2)
qed

lemma sym_dist: "sym (edges g) \<Longrightarrow> dist g s e = dist g e s"
proof -
  assume s: "sym (edges g)"
  have "((s, e) \<in> edges g ^^ k) = ((e, s) \<in> edges g ^^ k)" for k
    using sym_relpow[OF s] by blast
  then show ?thesis by (simp add: dist_def)
qed

lemma sym_connected: "sym (edges g) \<Longrightarrow> connected g s e = connected g e s"
proof -
  assume "sym (edges g)"
  then have "sym ((edges g)\<^sup>*)" by (rule sym_rtrancl)
  then have "((s, e) \<in> (edges g)\<^sup>*) = ((e, s) \<in> (edges g)\<^sup>*)" by (auto dest: symD)
  then show ?thesis by (auto simp: connected_def)
qed

lemma dist_zero: "(s, e) \<in> (edges g)\<^sup>* \<Longrightarrow> (dist g s e = 0) = (s = e)"
proof
  assume "(s, e) \<in> (edges g)\<^sup>*" "dist g s e = 0"
  with dist_walk[of s e g] show "s = e" by simp
next
  assume "s = e"
  then show "dist g s e = 0" using dist_le[where k = 0 and s = s and u = e and g = g] by simp
qed

text \<open>
  C9: in a network built by \<open>add_station\<close> and \<open>add_connection\<close>, for every pair of known
  stations with a connecting path, \<open>shortest_path(start, end)\<close> and
  \<open>shortest_path(end, start)\<close> return the same distance.
\<close>

theorem C9_shortest_path_symmetric:
  assumes "network g" "connected g start end"
  shows "\<exists>d. shortest_path g start end = Inr (Some d) \<and> shortest_path g end start = Inr (Some d)"
proof -
  note cl = network_closed[OF assms(1)] and sy = network_sym[OF assms(1)]
  from assms(2) sym_connected[OF sy] have "connected g end start" by simp
  with assms(2) shortest_path_correct[OF cl] sym_dist[OF sy, of start "end"] show ?thesis by simp
qed

theorem C9_shortest_path_symmetric_witness:
  "network metro \<and> connected metro ''hasiph'' ''southbridge''
   \<and> shortest_path metro ''hasiph'' ''southbridge'' = Inr (Some 2)
   \<and> shortest_path metro ''southbridge'' ''hasiph'' = Inr (Some 2)"
proof -
  have sp: "shortest_path metro ''hasiph'' ''southbridge'' = Inr (Some 2)" by code_simp
  have c: "connected metro ''hasiph'' ''southbridge''"
    using sp shortest_path_correct[OF network_closed[OF network_metro], of "''hasiph''" "''southbridge''"]
    by (auto split: if_splits)
  from C9_shortest_path_symmetric[OF network_metro c] sp network_metro c show ?thesis by auto
qed

text \<open>
  C7 (as stated): when a path exists \<open>calculate_fare\<close> returns
  \<open>max(5, 5 + (distance - 1))\<close>.  From a station to itself the distance is 0, the maximum
  is 5, and \<open>calculate_fare\<close> returns -1.
\<close>

theorem C7_same_station_counterexample:
  "shortest_path metro ''hasiph'' ''hasiph'' = Inr (Some 0)
   \<and> max (5 :: int) (5 + (0 - 1)) = 5
   \<and> calculate_fare metro ''hasiph'' ''hasiph'' = Inr (- 1)"
  by code_simp

text \<open>
  C7 (amended): in a network built by \<open>add_station\<close> and \<open>add_connection\<close>,
  \<open>calculate_fare(start, end)\<close> raises the \<open>ValueError\<close> "invalid route" exactly when the two
  stations are not connected (one of them is unknown, or no path leads from one to the
  other); otherwise, with \<open>distance = shortest_path(start, end)\<close>, it returns
  \<open>5 + (distance - 1)\<close> when the stations differ (and then \<open>distance \<ge> 1\<close>), and -1 when
  they are the same station.
\<close>

theorem C7_fare:
  assumes "network g"
  shows "(calculate_fare g start end = Inl ValueError \<longleftrightarrow> \<not> connected g start end)
       \<and> (connected g start end \<longrightarrow>
            (\<exists>distance. shortest_path g start end = Inr (Some distance)
               \<and> (start \<noteq> end \<longrightarrow> 1 \<le> distance)
               \<and> calculate_fare g start end
                    = Inr (if start = end then - 1 else 5 + (distance - 1))))"
proof -
  note sp = shortest_path_correct[OF network_closed[OF assms], of start "end"]
  show ?thesis
  proof (cases "connected g start end")
    case False
    with sp show ?thesis by (simp add: calculate_fare_def)
  next
    case True
    then have r: "(start, end) \<in> (edges g)\<^sup>*" by (simp add: connected_def)
    from dist_zero[OF r] have "start \<noteq> end \<Longrightarrow> 1 \<le> dist g start end" by auto
    with True sp dist_zero[OF r] show ?thesis by (auto simp: calculate_fare_def Let_def)
  qed
qed

theorem C7_fare_witness:
  "network metro \<and> connected metro ''hasiph'' ''southbridge''
   \<and> ''hasiph'' \<noteq> ''southbridge''
   \<and> shortest_path metro ''hasiph'' ''southbridge'' = Inr (Some 2)
   \<and> calculate_fare metro ''hasiph'' ''southbridge'' = Inr 6"
proof -
  have sp: "shortest_path metro ''hasiph'' ''southbridge'' = Inr (Some 2)" by code_simp
  have c: "connected metro ''hasiph'' ''southbridge''"
    using sp shortest_path_correct[OF network_closed[OF network_metro], of "''hasiph''" "''southbridge''"]
    by (auto split: if_splits)
  from C7_fare[OF network_metro, of "''hasiph''" "''southbridge''"] c sp network_metro
  show ?thesis by auto
qed

end
